theory Spec2Isabelle
  imports Main "HOL-Library.Char_ord" "HOL-Library.List_Lexorder" "HOL-Library.Multiset"
begin

section \<open>Python values used by the application\<close>

text \<open>
  Exceptions are values. Every exception the two modules raise themselves is a
  \<open>ValueError\<close>; \<open>KeyError\<close> and \<open>IndexError\<close> come from subscripting, and
  \<open>ExternalError\<close> stands for whatever an external library or service raises
  (the tokenizer, the PDF and DOCX readers, the vector store, the generation service),
  carrying its message.
\<close>

datatype error =
    ValueError string
  | KeyError string
  | IndexError string
  | ExternalError string

text \<open>\<open>str(e)\<close>: the message; a \<open>KeyError\<close> prints the repr of its key.\<close>

fun str_of :: "error \<Rightarrow> string" where
  "str_of (ValueError m) = m"
| "str_of (KeyError k) = [CHR 0x27] @ k @ [CHR 0x27]"
| "str_of (IndexError m) = m"
| "str_of (ExternalError m) = m"

text \<open>
  A Python \<open>str\<close> is modelled as a \<open>string\<close> whose characters are the code points below
  256 (Latin-1); \<open>bytes\<close> are character lists too.
\<close>

type_synonym bytes = "char list"

text \<open>\<open>str.isspace\<close> on one character, for the code points below 256.\<close>

definition isspace :: "char \<Rightarrow> bool" where
  "isspace c = ((of_char c :: nat) \<in> {9, 10, 11, 12, 13, 28, 29, 30, 31, 32, 133, 160})"

text \<open>\<open>s.strip()\<close>: leading and trailing whitespace removed.\<close>

definition strip :: "string \<Rightarrow> string" where
  "strip s = rev (dropWhile isspace (rev (dropWhile isspace s)))"

text \<open>\<open>s.lower()\<close>, for the code points below 256.\<close>

definition lower_char :: "char \<Rightarrow> char" where
  "lower_char c =
     (let n = (of_char c :: nat) in
      if (65 \<le> n \<and> n \<le> 90) \<or> (192 \<le> n \<and> n \<le> 222 \<and> n \<noteq> 215)
      then char_of (n + 32) else c)"

definition lower :: "string \<Rightarrow> string" where
  "lower s = map lower_char s"

text \<open>\<open>s.split(sep)\<close> for a one-character separator: never empty, \<open>''''.split('.') = ['''']\<close>.\<close>

fun split_on :: "char \<Rightarrow> string \<Rightarrow> string list" where
  "split_on sep [] = [ [] ]"
| "split_on sep (c # cs) =
     (if c = sep then [] # split_on sep cs
      else (case split_on sep cs of
              [] \<Rightarrow> [ [c] ]
            | f # fs \<Rightarrow> (c # f) # fs))"

text \<open>\<open>sep.join(parts)\<close>.\<close>

fun join :: "string \<Rightarrow> string list \<Rightarrow> string" where
  "join sep [] = []"
| "join sep [x] = x"
| "join sep (x # y # ys) = x @ sep @ join sep (y # ys)"

text \<open>
  \<open>xs[i:j]\<close> with Python's rules: a negative bound counts from the end, and both bounds
  are clamped to the list; the slice is empty when the bounds cross.
\<close>

definition slice_bound :: "int \<Rightarrow> nat \<Rightarrow> nat" where
  "slice_bound i n =
     (if i < 0 then (if i + int n < 0 then 0 else nat (i + int n))
      else (if i > int n then n else nat i))"

definition py_slice :: "'a list \<Rightarrow> int \<Rightarrow> int \<Rightarrow> 'a list" where
  "py_slice xs i j =
     (let a = slice_bound i (length xs); b = slice_bound j (length xs)
      in take (b - a) (drop a xs))"

text \<open>\<open>enumerate(xs)\<close>, with \<open>int\<close> indices.\<close>

definition enumerate_int :: "'a list \<Rightarrow> (int \<times> 'a) list" where
  "enumerate_int xs = zip (map int [0..<length xs]) xs"

text \<open>
  The values of a metadata dict are strings and integers. A dict is the list of its
  items in insertion order; its keys are distinct.
\<close>

datatype json = JStr string | JInt int

type_synonym metadata = "(string \<times> json) list"

section \<open>document\_processor.py\<close>

text \<open>
  The tokenizer (\<open>tiktoken\<close>'s \<open>cl100k_base\<close>) is an external library: \<open>encode\<close> may
  raise, \<open>decode\<close> is applied to slices of what \<open>encode\<close> returned.
\<close>

record 'tok encoding =
  encode :: "string \<Rightarrow> error + 'tok list"
  decode :: "'tok list \<Rightarrow> string"

text \<open>The processor object: its two parameters and its tokenizer.\<close>

record 'tok document_processor =
  chunk_size :: int
  chunk_overlap :: int
  encoding :: "'tok encoding"

text \<open>An uploaded file: its name and the bytes \<open>read()\<close> returns.\<close>

record uploaded_file =
  name :: string
  file_bytes :: bytes

text \<open>A chunk record: the dict with \<open>'content'\<close> and, when present, \<open>'metadata'\<close>.\<close>

record document =
  content :: string
  metadata :: "metadata option"

text \<open>
  The readers behind \<open>PyPDF2.PdfReader\<close> and \<open>docx.Document\<close>, and the UTF-8 decoder.
  The readers work on a world \<open>'w\<close> that they may change, so that a call of a reader is
  visible in the result.
\<close>

record docx_doc =
  paragraphs :: "string list"
  tables :: "string list list list"

record 'w libraries =
  pdf_pages :: "'w \<Rightarrow> bytes \<Rightarrow> (error + string list) \<times> 'w"
  docx_document :: "'w \<Rightarrow> bytes \<Rightarrow> (error + docx_doc) \<times> 'w"
  decode_utf8 :: "bytes \<Rightarrow> error + string"

text \<open>The specification's names for two of the \<open>ValueError\<close>s the processor raises.\<close>

definition UnsupportedFormat :: "string \<Rightarrow> error" where
  "UnsupportedFormat extension = ValueError (''Unsupported file extension: '' @ extension)"

definition EmptyDocument :: error where
  "EmptyDocument = ValueError ''No text content found in the file''"

text \<open>\<open>_get_file_type\<close>\<close>

definition file_extension :: "string \<Rightarrow> string" where
  "file_extension filename = last (split_on CHR ''.'' (lower filename))"

definition get_file_type :: "string \<Rightarrow> error + string" where
  "get_file_type filename =
     (let extension = file_extension filename in
      if extension = ''pdf'' then Inr ''pdf''
      else if extension \<in> set [''docx'', ''doc''] then Inr ''docx''
      else if extension = ''txt'' then Inr ''txt''
      else Inl (UnsupportedFormat extension))"

text \<open>\<open>_extract_pdf_text\<close>\<close>

definition extract_pdf_text ::
  "'w libraries \<Rightarrow> 'w \<Rightarrow> bytes \<Rightarrow> (error + string) \<times> 'w" where
  "extract_pdf_text libs w file_content =
     (case pdf_pages libs w file_content of
        (Inl e, w') \<Rightarrow>
          (Inl (ValueError (''Failed to extract text from PDF: '' @ str_of e)), w')
      | (Inr pages, w') \<Rightarrow>
          (Inr (strip (concat (map (\<lambda>page. page @ [CHR 0x0A]) pages))), w'))"

text \<open>\<open>_extract_docx_text\<close>\<close>

definition extract_docx_text ::
  "'w libraries \<Rightarrow> 'w \<Rightarrow> bytes \<Rightarrow> (error + string) \<times> 'w" where
  "extract_docx_text libs w file_content =
     (case docx_document libs w file_content of
        (Inl e, w') \<Rightarrow>
          (Inl (ValueError (''Failed to extract text from DOCX: '' @ str_of e)), w')
      | (Inr doc, w') \<Rightarrow>
          (Inr (strip
             (concat (map (\<lambda>paragraph. paragraph @ [CHR 0x0A]) (paragraphs doc)) @
              concat (map (\<lambda>table.
                 concat (map (\<lambda>row. concat (map (\<lambda>cell. cell @ '' '') row) @ [CHR 0x0A])
                   table)) (tables doc)))), w'))"

text \<open>
  \<open>_simple_text_split\<close>: the loop, and the function that starts it. The loop is the
  source's \<open>while\<close>; \<open>None\<close> is a run that never leaves it.
\<close>

partial_function (option) simple_loop ::
  "string \<Rightarrow> int \<Rightarrow> int \<Rightarrow> int \<Rightarrow> string list \<Rightarrow> string list option" where
  "simple_loop text char_chunk_size char_overlap start chunks =
     (if start < int (length text) then
        (let end = start + char_chunk_size;
             chunk = py_slice text start end;
             chunks' = (if strip chunk \<noteq> [] then chunks @ [strip chunk] else chunks);
             start' = end - char_overlap
         in simple_loop text char_chunk_size char_overlap
              (if start' \<ge> end then end else start') chunks')
      else Some chunks)"

declare simple_loop.simps [code]

definition simple_text_split ::
  "'tok document_processor \<Rightarrow> string \<Rightarrow> string list option" where
  "simple_text_split dp text =
     (let char_chunk_size = chunk_size dp * 4;
          char_overlap = chunk_overlap dp * 4
      in simple_loop text char_chunk_size char_overlap 0 [])"

text \<open>
  \<open>_split_text_into_chunks\<close>. \<open>window_end\<close> is lines 123 to 137 of one iteration: the
  tentative end, snapped to the last \<open>.\<close> of the window when the window is not the last.
  \<open>snap_text\<close> is the truncated chunk text of line 135.
\<close>

definition snap_text :: "string list \<Rightarrow> string" where
  "snap_text sentences = join ''.'' (butlast sentences) @ ''.''"

definition window_end ::
  "'tok document_processor \<Rightarrow> 'tok list \<Rightarrow> int \<Rightarrow> error + int" where
  "window_end dp tokens start =
     (let end = start + chunk_size dp in
      if end < int (length tokens) then
        (let chunk_tokens = py_slice tokens start end;
             chunk_text = decode (encoding dp) chunk_tokens;
             sentences = split_on CHR ''.'' chunk_text
         in if length sentences > 1 then
              (case encode (encoding dp) (snap_text sentences) of
                 Inl e \<Rightarrow> Inl e
               | Inr chunk_tokens' \<Rightarrow> Inr (start + int (length chunk_tokens')))
            else Inr end)
      else Inr end)"

text \<open>Lines 146 to 151: the start of the next window.\<close>

definition next_start :: "'tok document_processor \<Rightarrow> int \<Rightarrow> int" where
  "next_start dp end =
     (let start = end - chunk_overlap dp in
      if start \<ge> end then end else start)"

partial_function (option) chunk_loop ::
  "'tok document_processor \<Rightarrow> 'tok list \<Rightarrow> int \<Rightarrow> string list
     \<Rightarrow> (error + string list) option" where
  "chunk_loop dp tokens start chunks =
     (if start < int (length tokens) then
        (case window_end dp tokens start of
           Inl e \<Rightarrow> Some (Inl e)
         | Inr end \<Rightarrow>
             (let chunk_tokens = py_slice tokens start end;
                  chunk_text = decode (encoding dp) chunk_tokens;
                  chunks' = (if strip chunk_text \<noteq> [] then chunks @ [strip chunk_text]
                             else chunks)
              in chunk_loop dp tokens (next_start dp end) chunks'))
      else Some (Inr chunks))"

declare chunk_loop.simps [code]

definition split_text_into_chunks ::
  "'tok document_processor \<Rightarrow> string \<Rightarrow> string list option" where
  "split_text_into_chunks dp text =
     (case encode (encoding dp) text of
        Inl e \<Rightarrow> simple_text_split dp text
      | Inr tokens \<Rightarrow>
          (case chunk_loop dp tokens 0 [] of
             None \<Rightarrow> None
           | Some (Inl e) \<Rightarrow> simple_text_split dp text
           | Some (Inr chunks) \<Rightarrow> Some chunks))"

text \<open>\<open>process_uploaded_file\<close>; the \<open>except\<close> clause logs and re-raises.\<close>

definition make_documents :: "string \<Rightarrow> string \<Rightarrow> string list \<Rightarrow> document list" where
  "make_documents filename file_type chunks =
     map (\<lambda>(i, chunk).
            \<lparr>content = chunk,
             metadata = Some [(''filename'', JStr filename),
                              (''file_type'', JStr file_type),
                              (''chunk_index'', JInt i),
                              (''total_chunks'', JInt (int (length chunks)))]\<rparr>)
         (enumerate_int chunks)"

definition process_uploaded_file ::
  "'tok document_processor \<Rightarrow> 'w libraries \<Rightarrow> 'w \<Rightarrow> uploaded_file
     \<Rightarrow> ((error + document list) \<times> 'w) option" where
  "process_uploaded_file dp libs w uploaded =
     (let file_content = file_bytes uploaded;
          filename = name uploaded
      in case get_file_type filename of
           Inl e \<Rightarrow> Some (Inl e, w)
         | Inr file_type \<Rightarrow>
             (case (if file_type = ''pdf'' then extract_pdf_text libs w file_content
                    else if file_type = ''docx'' then extract_docx_text libs w file_content
                    else if file_type = ''txt'' then (decode_utf8 libs file_content, w)
                    else (Inl (ValueError (''Unsupported file type: '' @ file_type)), w)) of
                (Inl e, w') \<Rightarrow> Some (Inl e, w')
              | (Inr text, w') \<Rightarrow>
                  if strip text = [] then Some (Inl EmptyDocument, w')
                  else (case split_text_into_chunks dp text of
                          None \<Rightarrow> None
                        | Some chunks \<Rightarrow>
                            Some (Inr (make_documents filename file_type chunks), w'))))"

text \<open>The tokenizer that makes every character a token; it never raises.\<close>

definition char_encoding :: "char encoding" where
  "char_encoding = \<lparr>encode = (\<lambda>text. Inr text), decode = (\<lambda>tokens. tokens)\<rparr>"

section \<open>rag\_service.py\<close>

text \<open>
  What the vector store's \<open>collection.query\<close> answers: parallel arrays, one inner list
  per query text, each of which may be missing.
\<close>

record 'd query_result =
  documents :: "string list list option"
  metadatas :: "metadata list list option"
  distances :: "'d list list option"

record 'd search_result =
  result_content :: string
  result_metadata :: metadata
  distance :: "'d option"

text \<open>
  The service holds the two clients. Their calls work on the world \<open>'w\<close> (the store's
  contents, the network) and may raise; \<open>hashlib.md5(...).hexdigest()\<close> and the
  rendering of \<open>json.dumps\<close> for a list of items in the order given are library functions.
\<close>

record ('w, 'd) rag_service =
  collection_add ::
    "'w \<Rightarrow> string list \<Rightarrow> metadata list \<Rightarrow> string list \<Rightarrow> (error + unit) \<times> 'w"
  collection_query :: "'w \<Rightarrow> string list \<Rightarrow> int \<Rightarrow> (error + 'd query_result) \<times> 'w"
  collection_count :: "'w \<Rightarrow> (error + nat) \<times> 'w"
  ollama_generate :: "'w \<Rightarrow> string \<Rightarrow> string \<Rightarrow> (error + (string \<rightharpoonup> string)) \<times> 'w"
  md5_hexdigest :: "string \<Rightarrow> string"
  json_dumps_items :: "metadata \<Rightarrow> string"

text \<open>\<open>doc.get('metadata', {})\<close>\<close>

definition get_metadata :: "document \<Rightarrow> metadata" where
  "get_metadata doc = (case metadata doc of None \<Rightarrow> [] | Some m \<Rightarrow> m)"

text \<open>\<open>_generate_doc_id\<close>; \<open>sort_keys=True\<close> orders the items by key before rendering.\<close>

definition generate_doc_id :: "('w, 'd) rag_service \<Rightarrow> string \<Rightarrow> metadata \<Rightarrow> string" where
  "generate_doc_id svc content_text meta =
     (let content_hash = md5_hexdigest svc content_text;
          metadata_str = json_dumps_items svc (sort_key fst meta);
          metadata_hash = md5_hexdigest svc metadata_str
      in content_hash @ ''_'' @ metadata_hash)"

text \<open>\<open>add_documents\<close>\<close>

definition add_documents :: "('w, 'd) rag_service \<Rightarrow> 'w \<Rightarrow> document list \<Rightarrow> bool \<times> 'w" where
  "add_documents svc w docs =
     (if docs = [] then (True, w)
      else
        (let ids = map (\<lambda>doc. generate_doc_id svc (content doc) (get_metadata doc)) docs;
             texts = map content docs;
             metas = map get_metadata docs
         in case collection_add svc w texts metas ids of
              (Inl e, w') \<Rightarrow> (False, w')
            | (Inr u, w') \<Rightarrow> (True, w')))"

text \<open>\<open>xs[i]\<close> for an index that \<open>enumerate\<close> produced.\<close>

definition index :: "'a list \<Rightarrow> nat \<Rightarrow> error + 'a" where
  "index xs i = (if i < length xs then Inr (xs ! i) else Inl (IndexError ''list index out of range''))"

text \<open>The first exception of a sequence of computations ends it.\<close>

fun collect :: "(error + 'a) list \<Rightarrow> error + 'a list" where
  "collect [] = Inr []"
| "collect (x # xs) =
     (case x of
        Inl e \<Rightarrow> Inl e
      | Inr v \<Rightarrow> (case collect xs of Inl e \<Rightarrow> Inl e | Inr vs \<Rightarrow> Inr (v # vs)))"

text \<open>\<open>search_documents\<close>: the formatting of the store's answer, then the whole method.\<close>

definition format_result :: "'d query_result \<Rightarrow> nat \<Rightarrow> string \<Rightarrow> error + 'd search_result" where
  "format_result results i doc =
     (case (case metadatas results of
              None \<Rightarrow> Inr []
            | Some [] \<Rightarrow> Inr []
            | Some (m0 # ms) \<Rightarrow> index m0 i) of
        Inl e \<Rightarrow> Inl e
      | Inr m \<Rightarrow>
          (case (case distances results of
                   None \<Rightarrow> Inr None
                 | Some [] \<Rightarrow> Inr None
                 | Some (d0 # ds) \<Rightarrow> map_sum id Some (index d0 i)) of
             Inl e \<Rightarrow> Inl e
           | Inr d \<Rightarrow> Inr \<lparr>result_content = doc, result_metadata = m, distance = d\<rparr>))"

definition format_results :: "'d query_result \<Rightarrow> error + 'd search_result list" where
  "format_results results =
     (case documents results of
        None \<Rightarrow> Inr []
      | Some [] \<Rightarrow> Inr []
      | Some (docs0 # rest) \<Rightarrow>
          collect (map (\<lambda>(i, doc). format_result results i doc) (enumerate 0 docs0)))"

definition search_documents ::
  "('w, 'd) rag_service \<Rightarrow> 'w \<Rightarrow> string \<Rightarrow> int \<Rightarrow> 'd search_result list \<times> 'w" where
  "search_documents svc w query n_results =
     (case collection_query svc w [query] n_results of
        (Inl e, w') \<Rightarrow> ([], w')
      | (Inr results, w') \<Rightarrow>
          (case format_results results of
             Inl e \<Rightarrow> ([], w')
           | Inr formatted_results \<Rightarrow> (formatted_results, w')))"

text \<open>\<open>generate_response\<close>\<close>

definition make_prompt :: "string \<Rightarrow> string \<Rightarrow> string" where
  "make_prompt context_text query =
     ''Based on the following context, please answer the question. If the answer cannot be found in the context, please say so.''
     @ [CHR 0x0A, CHR 0x0A] @ ''Context:'' @ [CHR 0x0A] @ context_text
     @ [CHR 0x0A, CHR 0x0A] @ ''Question: '' @ query
     @ [CHR 0x0A, CHR 0x0A] @ ''Answer:''"

definition generate_response ::
  "('w, 'd) rag_service \<Rightarrow> 'w \<Rightarrow> string \<Rightarrow> 'd search_result list \<Rightarrow> string \<Rightarrow> string \<times> 'w" where
  "generate_response svc w query context_docs model =
     (let context_text = join [CHR 0x0A, CHR 0x0A] (map result_content context_docs);
          prompt = make_prompt context_text query
      in case ollama_generate svc w model prompt of
           (Inl e, w') \<Rightarrow> (''Error generating response: '' @ str_of e, w')
         | (Inr response, w') \<Rightarrow>
             (case response ''response'' of
                None \<Rightarrow> (''Error generating response: '' @ str_of (KeyError ''response''), w')
              | Some answer \<Rightarrow> (answer, w')))"

text \<open>\<open>get_collection_stats\<close>, its document count.\<close>

definition document_count :: "('w, 'd) rag_service \<Rightarrow> 'w \<Rightarrow> nat \<times> 'w" where
  "document_count svc w =
     (case collection_count svc w of
        (Inl e, w') \<Rightarrow> (0, w')
      | (Inr n, w') \<Rightarrow> (n, w'))"

section \<open>Notions used in the statements\<close>

text \<open>The tentative window of an iteration, and its text (lines 128 and 129).\<close>

definition window :: "'tok document_processor \<Rightarrow> 'tok list \<Rightarrow> int \<Rightarrow> 'tok list" where
  "window dp tokens start = py_slice tokens start (start + chunk_size dp)"

definition window_text :: "'tok document_processor \<Rightarrow> 'tok list \<Rightarrow> int \<Rightarrow> string" where
  "window_text dp tokens start = decode (encoding dp) (window dp tokens start)"

text \<open>
  The character windows of the fallback for chunk size \<open>csize\<close> and an overlap: each is
  \<open>csize * 4\<close> characters long (the last ones shorter), and they start \<open>csize * 4 - overlap * 4\<close>
  characters apart, one for every start inside the text.
\<close>

definition char_windows :: "int \<Rightarrow> int \<Rightarrow> string \<Rightarrow> string list" where
  "char_windows csize overlap text =
     (let width = nat (csize * 4); step = nat (csize * 4 - overlap * 4)
      in map (\<lambda>k. take width (drop (k * step) text)) [0..<(length text + step - 1) div step])"

text \<open>The identifier \<open>add_documents\<close> gives a document, and the prompt \<open>generate_response\<close> submits.\<close>

definition doc_id :: "('w, 'd) rag_service \<Rightarrow> document \<Rightarrow> string" where
  "doc_id svc doc = generate_doc_id svc (content doc) (get_metadata doc)"

definition prompt_for :: "string \<Rightarrow> 'd search_result list \<Rightarrow> string" where
  "prompt_for query context_docs =
     make_prompt (join [CHR 0x0A, CHR 0x0A] (map result_content context_docs)) query"

text \<open>
  Two chunk records are the same record when they have the same content and the same
  metadata entries; a dict has each key once, and the order of its keys is free.
\<close>

definition same_record :: "document \<Rightarrow> document \<Rightarrow> bool" where
  "same_record a b \<longleftrightarrow>
     content a = content b \<and>
     distinct (map fst (get_metadata a)) \<and> distinct (map fst (get_metadata b)) \<and>
     set (get_metadata a) = set (get_metadata b)"

section \<open>The vector store of the specification\<close>

text \<open>
  Modelled from the spec: the vector store is an external service, none of whose code is
  in the repository. The specification describes it as the owner of the chunk records,
  written by upsert, "insert-or-update by deterministic identifier", and counted by
  \<open>count()\<close>. The store is the list of its records, each under its identifier; an
  identifier the store holds has its record replaced in place, a new one is added at the
  end.
\<close>

type_synonym store = "(string \<times> (string \<times> metadata)) list"

fun store_upsert :: "string \<Rightarrow> string \<times> metadata \<Rightarrow> store \<Rightarrow> store" where
  "store_upsert i r [] = [(i, r)]"
| "store_upsert i r ((j, s) # rest) =
     (if i = j then (i, r) # rest else (j, s) # store_upsert i r rest)"

definition store_upsert_all :: "(string \<times> (string \<times> metadata)) list \<Rightarrow> store \<Rightarrow> store" where
  "store_upsert_all batch st = fold (\<lambda>(i, r). store_upsert i r) batch st"

definition spec_collection_add ::
  "store \<Rightarrow> string list \<Rightarrow> metadata list \<Rightarrow> string list \<Rightarrow> (error + unit) \<times> store" where
  "spec_collection_add w texts metas ids =
     (Inr (), store_upsert_all (zip ids (zip texts metas)) w)"

definition spec_collection_count :: "store \<Rightarrow> (error + nat) \<times> store" where
  "spec_collection_count w = (Inr (length w), w)"

text \<open>The batch \<open>add_documents\<close> hands to the store.\<close>

definition batch_of ::
  "('w, 'd) rag_service \<Rightarrow> document list \<Rightarrow> (string \<times> (string \<times> metadata)) list" where
  "batch_of svc docs = zip (map (doc_id svc) docs) (zip (map content docs) (map get_metadata docs))"

section \<open>Concrete instances used to run the definitions\<close>

text \<open>The processor with the default parameters, over the one-character tokenizer.\<close>

definition default_processor :: "char document_processor" where
  "default_processor = \<lparr>chunk_size = 1000, chunk_overlap = 200, encoding = char_encoding\<rparr>"

text \<open>A small processor: windows of four tokens, an overlap of two.\<close>

definition small_processor :: "char document_processor" where
  "small_processor = \<lparr>chunk_size = 4, chunk_overlap = 2, encoding = char_encoding\<rparr>"

text \<open>A tokenizer that is unavailable: every call of \<open>encode\<close> raises.\<close>

definition failing_encoding :: "char encoding" where
  "failing_encoding =
     \<lparr>encode = (\<lambda>text. Inl (ExternalError ''tokenizer unavailable'')),
      decode = (\<lambda>tokens. tokens)\<rparr>"

definition fallback_processor :: "char document_processor" where
  "fallback_processor = \<lparr>chunk_size = 1000, chunk_overlap = 200, encoding = failing_encoding\<rparr>"

text \<open>
  A text whose first sentence ends at character 301 and that has no further \<open>.\<close> in
  its next 2000 characters.
\<close>

definition stuck_text :: string where
  "stuck_text = replicate 300 CHR ''a'' @ CHR ''.'' # replicate 2000 CHR ''a''"

text \<open>Readers that count their calls in the world.\<close>

definition counting_libraries :: "nat libraries" where
  "counting_libraries =
     \<lparr>pdf_pages = (\<lambda>w b. (Inr [b], Suc w)),
      docx_document = (\<lambda>w b. (Inr \<lparr>paragraphs = [b], tables = []\<rparr>, Suc w)),
      decode_utf8 = (\<lambda>b. Inr b)\<rparr>"

text \<open>A service whose every call is counted in the world; generation fails.\<close>

definition counting_service :: "(nat, int) rag_service" where
  "counting_service =
     \<lparr>collection_add = (\<lambda>w texts metas ids. (Inr (), Suc w)),
      collection_query = (\<lambda>w texts k. (Inl (ExternalError ''no collection''), Suc w)),
      collection_count = (\<lambda>w. (Inr 0, Suc w)),
      ollama_generate = (\<lambda>w model prompt. (Inl (ExternalError ''connection refused''), Suc w)),
      md5_hexdigest = (\<lambda>s. s),
      json_dumps_items = (\<lambda>m. concat (map fst m))\<rparr>"

definition answering_service :: "string \<Rightarrow> (nat, int) rag_service" where
  "answering_service answer =
     counting_service\<lparr>ollama_generate :=
       (\<lambda>w model prompt. (Inr [''response'' \<mapsto> answer], Suc w))\<rparr>"

definition failing_service :: "error \<Rightarrow> (nat, int) rag_service" where
  "failing_service e =
     counting_service\<lparr>ollama_generate := (\<lambda>w model prompt. (Inl e, Suc w))\<rparr>"

definition ranked_answer :: "int query_result" where
  "ranked_answer = \<lparr>documents = Some [ [''near'', ''far''] ], metadatas = Some [ [ [], [] ] ],
                     distances = Some [ [1, 5] ]\<rparr>"

definition empty_answer :: "int query_result" where
  "empty_answer = \<lparr>documents = Some [ [] ], metadatas = Some [ [] ], distances = Some [ [] ]\<rparr>"

definition ranked_service :: "(nat, int) rag_service" where
  "ranked_service =
     counting_service\<lparr>collection_query := (\<lambda>w texts k. (Inr ranked_answer, Suc w))\<rparr>"

definition empty_store_service :: "(nat, int) rag_service" where
  "empty_store_service =
     counting_service\<lparr>collection_query := (\<lambda>w texts k. (Inr empty_answer, Suc w))\<rparr>"

text \<open>A service over the store of the specification, with stand-ins for the two hashes.\<close>

definition spec_store_service :: "(store, int) rag_service" where
  "spec_store_service =
     \<lparr>collection_add = spec_collection_add,
      collection_query = (\<lambda>w texts k. (Inl (ExternalError ''not modelled''), w)),
      collection_count = spec_collection_count,
      ollama_generate = (\<lambda>w model prompt. (Inl (ExternalError ''not modelled''), w)),
      md5_hexdigest = (\<lambda>s. s),
      json_dumps_items = (\<lambda>m. concat (map fst m))\<rparr>"

definition record_a :: document where
  "record_a = \<lparr>content = ''hello'',
               metadata = Some [(''filename'', JStr ''a.txt''), (''chunk_index'', JInt 0)]\<rparr>"

definition record_a' :: document where
  "record_a' = \<lparr>content = ''hello'',
                metadata = Some [(''chunk_index'', JInt 0), (''filename'', JStr ''a.txt'')]\<rparr>"

section \<open>Strings and slices\<close>

lemma dropWhile_Nil_or_hd: "dropWhile P xs = [] \<or> \<not> P (hd (dropWhile P xs))"
  by (induction xs) auto

lemma dropWhile_all_iff: "(\<forall>c \<in> set (dropWhile P xs). P c) \<longleftrightarrow> (\<forall>c \<in> set xs. P c)"
proof
  assume a: "\<forall>c \<in> set (dropWhile P xs). P c"
  have "dropWhile P xs = []"
  proof (rule ccontr)
    assume n: "dropWhile P xs \<noteq> []"
    then have "hd (dropWhile P xs) \<in> set (dropWhile P xs)" by simp
    with a have "P (hd (dropWhile P xs))" by blast
    with dropWhile_Nil_or_hd [of P xs] n show False by blast
  qed
  then show "\<forall>c \<in> set xs. P c" by (simp add: dropWhile_eq_Nil_conv)
next
  assume "\<forall>c \<in> set xs. P c"
  then show "\<forall>c \<in> set (dropWhile P xs). P c" by (auto dest: set_dropWhileD)
qed

lemma strip_eq_Nil: "strip s = [] \<longleftrightarrow> (\<forall>c \<in> set s. isspace c)"
proof -
  have "strip s = [] \<longleftrightarrow> dropWhile isspace (rev (dropWhile isspace s)) = []"
    by (simp add: strip_def)
  also have "\<dots> \<longleftrightarrow> (\<forall>c \<in> set (rev (dropWhile isspace s)). isspace c)"
    by (rule dropWhile_eq_Nil_conv)
  also have "\<dots> \<longleftrightarrow> (\<forall>c \<in> set (dropWhile isspace s). isspace c)" by simp
  also have "\<dots> \<longleftrightarrow> (\<forall>c \<in> set s. isspace c)" by (rule dropWhile_all_iff)
  finally show ?thesis .
qed

lemma dropWhile_id: "xs \<noteq> [] \<Longrightarrow> \<not> P (hd xs) \<Longrightarrow> dropWhile P xs = xs"
  by (cases xs) auto

lemma last_dropWhile: "dropWhile P xs \<noteq> [] \<Longrightarrow> last (dropWhile P xs) = last xs"
  by (induction xs) (auto split: if_splits)

lemma strip_strip: "strip (strip s) = strip s"
proof (cases "strip s = []")
  case True
  have "strip [] = []" by (simp add: strip_def)
  then show ?thesis unfolding True .
next
  case False
  let ?u = "dropWhile isspace s"
  let ?v = "dropWhile isspace (rev ?u)"
  have v: "?v \<noteq> []" using False by (simp only: strip_def rev_is_Nil_conv not_False_eq_True)
  have u: "?u \<noteq> []"
  proof
    assume "?u = []"
    then have "?v = []" by (simp only: rev.simps dropWhile.simps)
    with v show False by blast
  qed
  have hv: "\<not> isspace (hd ?v)" using v dropWhile_Nil_or_hd [of isspace "rev ?u"] by blast
  have hu: "\<not> isspace (hd ?u)" using u dropWhile_Nil_or_hd [of isspace s] by blast
  have "last ?v = last (rev ?u)" using v by (rule last_dropWhile)
  then have lv: "\<not> isspace (last ?v)" using hu u by (simp add: last_rev)
  have 1: "dropWhile isspace (rev ?v) = rev ?v"
    using v lv by (intro dropWhile_id) (simp_all add: hd_rev)
  have 2: "dropWhile isspace ?v = ?v"
    using v hv by (intro dropWhile_id)
  show ?thesis
    unfolding strip_def [of "rev ?v"] strip_def [of s] 1 by (simp add: 2)
qed

lemma strip_nonblank: "\<not> isspace c \<Longrightarrow> c \<in> set s \<Longrightarrow> strip s \<noteq> []"
  by (auto simp: strip_eq_Nil)

lemma split_on_not_Nil: "split_on sep s \<noteq> []"
  by (induction s) (auto split: list.splits)

lemma length_split_on: "length (split_on sep s) = Suc (count_list s sep)"
  by (induction s) (auto split: list.splits simp: split_on_not_Nil)

lemma split_on_many: "1 < length (split_on sep s) \<longleftrightarrow> sep \<in> set s"
  using count_list_0_iff [of s sep] by (auto simp: length_split_on)

lemma split_on_fragments: "f \<in> set (split_on sep s) \<Longrightarrow> sep \<notin> set f"
  by (induction s arbitrary: f) (auto split: list.splits if_splits)

lemma join_split_on: "join [sep] (split_on sep s) = s"
proof (induction s)
  case Nil
  then show ?case by simp
next
  case (Cons c s)
  show ?case
  proof (cases "split_on sep s")
    case Nil
    then show ?thesis by (simp add: split_on_not_Nil)
  next
    case (Cons f fs)
    with Cons.IH show ?thesis by (cases fs) auto
  qed
qed

lemma join_snoc: "xs \<noteq> [] \<Longrightarrow> join sep (xs @ [x]) = join sep xs @ sep @ x"
  by (induction sep xs rule: join.induct) auto

lemma snap_text_decomposition:
  assumes "CHR ''.'' \<in> set w"
  shows "snap_text (split_on CHR ''.'' w) @ last (split_on CHR ''.'' w) = w"
    and "CHR ''.'' \<notin> set (last (split_on CHR ''.'' w))"
proof -
  let ?xs = "split_on CHR ''.'' w"
  have ne: "?xs \<noteq> []" by (rule split_on_not_Nil)
  have "1 < length ?xs" using assms by (simp only: split_on_many)
  then have b: "butlast ?xs \<noteq> []" by (cases ?xs rule: rev_cases) auto
  have "join ''.'' ?xs = join ''.'' (butlast ?xs @ [last ?xs])" using ne by simp
  also have "\<dots> = join ''.'' (butlast ?xs) @ ''.'' @ last ?xs" by (rule join_snoc [OF b])
  finally show "snap_text ?xs @ last ?xs = w"
    using join_split_on [of "CHR ''.''" w] by (simp add: snap_text_def)
  show "CHR ''.'' \<notin> set (last ?xs)"
    using ne by (intro split_on_fragments [of _ "CHR ''.''" w]) simp
qed

lemma takeWhile_until: "c \<notin> set q \<Longrightarrow> takeWhile (\<lambda>x. x \<noteq> c) (q @ c # r) = q"
  by (induction q) auto

lemma last_dot_unique:
  assumes "p @ c # q = p' @ c # q'" "c \<notin> set q" "c \<notin> set q'"
  shows "p = p' \<and> q = q'"
proof -
  have "rev (p @ c # q) = rev (p' @ c # q')" using assms(1) by (rule arg_cong)
  then have e: "rev q @ c # rev p = rev q' @ c # rev p'" by simp
  have "takeWhile (\<lambda>x. x \<noteq> c) (rev q @ c # rev p) = rev q"
    using assms(2) by (intro takeWhile_until) simp
  moreover have "takeWhile (\<lambda>x. x \<noteq> c) (rev q' @ c # rev p') = rev q'"
    using assms(3) by (intro takeWhile_until) simp
  ultimately have "rev q = rev q'" using e by simp
  then have q: "q = q'" by simp
  with assms(1) show ?thesis by simp
qed

lemma snap_text_last_dot:
  assumes "CHR ''.'' \<notin> set q"
  shows "snap_text (split_on CHR ''.'' (p @ CHR ''.'' # q)) = p @ ''.''"
proof -
  let ?w = "p @ CHR ''.'' # q"
  let ?xs = "split_on CHR ''.'' ?w"
  let ?p' = "join ''.'' (butlast ?xs)"
  have d: "CHR ''.'' \<in> set ?w" by simp
  have "snap_text ?xs @ last ?xs = ?w" by (rule snap_text_decomposition(1) [OF d])
  then have e: "?p' @ CHR ''.'' # last ?xs = p @ CHR ''.'' # q"
    by (simp only: snap_text_def append_assoc append_Cons append_Nil)
  have n: "CHR ''.'' \<notin> set (last ?xs)" by (rule snap_text_decomposition(2) [OF d])
  from last_dot_unique [OF e n assms] have "?p' = p" by (rule conjunct1)
  then show ?thesis by (simp only: snap_text_def)
qed

lemma py_slice_nonneg:
  assumes "0 \<le> i" "i \<le> j"
  shows "py_slice xs i j = take (nat j - nat i) (drop (nat i) xs)"
proof -
  have "take (min (length xs) (nat j) - min (length xs) (nat i)) (drop (min (length xs) (nat i)) xs)
        = take (nat j - nat i) (drop (nat i) xs)"
  proof (cases "nat i \<le> length xs")
    case True
    then show ?thesis
      by (cases "nat j \<le> length xs") (simp_all add: min_def)
  next
    case False
    then show ?thesis by simp
  qed
  moreover have "slice_bound i (length xs) = min (length xs) (nat i)"
    "slice_bound j (length xs) = min (length xs) (nat j)"
    using assms by (auto simp: slice_bound_def min_def)
  ultimately show ?thesis by (simp add: py_slice_def Let_def)
qed

section \<open>File types\<close>

lemma file_extension_csv: "file_extension ''data.csv'' = ''csv''"
  by (simp add: file_extension_def lower_def lower_char_def)

lemma file_extension_upper_pdf: "get_file_type ''Report.PDF'' = Inr ''pdf''"
  by code_simp

text \<open>A name without a \<open>.\<close> is its own extension.\<close>

lemma file_extension_without_dot: "file_extension ''notes'' = ''notes''"
  by (simp add: file_extension_def lower_def lower_char_def)

text \<open>A reader that runs is seen in the world: the counter moves for a PDF.\<close>

lemma pdf_reader_call_is_counted:
  "map_option snd (process_uploaded_file default_processor counting_libraries 0
      \<lparr>name = ''a.pdf'', file_bytes = ''x''\<rparr>) = Some 1 \<or>
   process_uploaded_file default_processor counting_libraries 0
      \<lparr>name = ''a.pdf'', file_bytes = ''x''\<rparr> = None"
  by (auto simp add: process_uploaded_file_def get_file_type_def file_extension_def lower_def
        lower_char_def extract_pdf_text_def counting_libraries_def Let_def
      split: option.splits)

text \<open>
  C8. The extension is the text after the last \<open>.\<close> of the lower-cased file name (the
  whole name when it has no \<open>.\<close>). When it is none of pdf, doc, docx and txt,
  \<open>_get_file_type\<close> raises the unsupported-format error, and \<open>process_uploaded_file\<close>
  fails with that same error whatever the readers are, leaving the world as it was: no
  reader has run on the bytes.
\<close>

theorem unsupported_extension_rejected:
  assumes "file_extension (name uploaded) \<notin> {''pdf'', ''doc'', ''docx'', ''txt''}"
  shows "get_file_type (name uploaded) = Inl (UnsupportedFormat (file_extension (name uploaded)))
       \<and> process_uploaded_file dp libs w uploaded
           = Some (Inl (UnsupportedFormat (file_extension (name uploaded))), w)"
  using assms by (simp add: get_file_type_def process_uploaded_file_def Let_def)

theorem unsupported_extension_rejected_witness:
  "file_extension (name \<lparr>name = ''data.csv'', file_bytes = ''a,b''\<rparr>)
     \<notin> {''pdf'', ''doc'', ''docx'', ''txt''}
   \<and> process_uploaded_file default_processor counting_libraries 0
       \<lparr>name = ''data.csv'', file_bytes = ''a,b''\<rparr>
       = Some (Inl (ValueError ''Unsupported file extension: csv''), 0)"
  using unsupported_extension_rejected
    [of "\<lparr>name = ''data.csv'', file_bytes = ''a,b''\<rparr>" default_processor counting_libraries 0]
  by (simp add: file_extension_csv UnsupportedFormat_def)

section \<open>Adding documents\<close>

lemma keys_store_upsert: "fst ` set (store_upsert i r st) = insert i (fst ` set st)"
  by (induction i r st rule: store_upsert.induct) auto

lemma map_fst_store_upsert:
  "i \<in> fst ` set st \<Longrightarrow> map fst (store_upsert i r st) = map fst st"
  by (induction i r st rule: store_upsert.induct) auto

lemma map_of_store_upsert: "map_of (store_upsert i r st) = (map_of st)(i \<mapsto> r)"
  by (induction i r st rule: store_upsert.induct) (auto simp: fun_eq_iff)

lemma keys_store_upsert_all:
  "fst ` set (store_upsert_all b st) = fst ` set b \<union> fst ` set st"
  unfolding store_upsert_all_def
proof (induction b arbitrary: st)
  case Nil
  then show ?case by simp
next
  case (Cons x b)
  obtain i r where x: "x = (i, r)" by (cases x)
  show ?case by (simp add: x Cons.IH keys_store_upsert)
qed

lemma map_fst_store_upsert_all:
  "fst ` set b \<subseteq> fst ` set st \<Longrightarrow> map fst (store_upsert_all b st) = map fst st"
  unfolding store_upsert_all_def
proof (induction b arbitrary: st)
  case Nil
  then show ?case by simp
next
  case (Cons x b)
  obtain i r where x: "x = (i, r)" by (cases x)
  from Cons.prems x have i: "i \<in> fst ` set st" by auto
  have "fst ` set b \<subseteq> fst ` set (store_upsert i r st)"
    using Cons.prems by (auto simp: keys_store_upsert)
  from Cons.IH [OF this] show ?case
    by (simp add: x map_fst_store_upsert [OF i])
qed

lemma map_of_store_upsert_all:
  "map_of (store_upsert_all b st) = map_of st ++ map_of (rev b)"
  unfolding store_upsert_all_def
proof (induction b arbitrary: st)
  case Nil
  then show ?case by simp
next
  case (Cons x b)
  obtain i r where x: "x = (i, r)" by (cases x)
  show ?case
    by (simp add: x Cons.IH map_of_store_upsert map_add_upd_left fun_eq_iff map_add_def split: option.splits)
qed

lemma distinct_store_upsert:
  "distinct (map fst st) \<Longrightarrow> distinct (map fst (store_upsert i r st))"
  by (induction i r st rule: store_upsert.induct) (auto simp: keys_store_upsert)

lemma distinct_store_upsert_all:
  "distinct (map fst st) \<Longrightarrow> distinct (map fst (store_upsert_all b st))"
  unfolding store_upsert_all_def
  by (induction b arbitrary: st) (auto simp: distinct_store_upsert)

lemma alist_eqI:
  "distinct (map fst xs) \<Longrightarrow> map fst xs = map fst ys \<Longrightarrow> map_of xs = map_of ys \<Longrightarrow> xs = ys"
proof (induction xs arbitrary: ys)
  case Nil
  then show ?case by simp
next
  case (Cons x xs)
  then obtain y ys' where ys: "ys = y # ys'" by (cases ys) auto
  obtain k v where x: "x = (k, v)" by (cases x)
  obtain k' v' where y: "y = (k', v')" by (cases y)
  from Cons.prems ys x y have k: "k' = k" and keys: "map fst xs = map fst ys'" by auto
  from Cons.prems(3) have "map_of (x # xs) k = map_of ys k" by (rule arg_cong)
  then have v: "v' = v" by (simp add: x y ys k)
  have kx: "k \<notin> fst ` set xs" using Cons.prems(1) x by auto
  have "map_of xs = map_of ys'"
  proof
    fix a
    show "map_of xs a = map_of ys' a"
    proof (cases "a = k")
      case True
      then have "map_of xs a = None" using kx by (simp add: map_of_eq_None_iff)
      moreover have "map_of ys' a = None"
        using kx keys True by (metis map_of_eq_None_iff set_map)
      ultimately show ?thesis by simp
    next
      case False
      from Cons.prems(3) have "map_of (x # xs) a = map_of ys a" by (rule arg_cong)
      then show ?thesis using False by (simp add: x y ys k)
    qed
  qed
  with Cons.IH [of ys'] Cons.prems(1) keys have "xs = ys'" by simp
  then show ?case by (simp add: ys x y k v)
qed

lemma store_upsert_all_twice:
  assumes "distinct (map fst st)"
  shows "store_upsert_all b (store_upsert_all b st) = store_upsert_all b st"
proof (rule alist_eqI)
  let ?s1 = "store_upsert_all b st"
  show "distinct (map fst (store_upsert_all b ?s1))"
    by (intro distinct_store_upsert_all assms)
  show "map fst (store_upsert_all b ?s1) = map fst ?s1"
    by (rule map_fst_store_upsert_all) (simp add: keys_store_upsert_all)
  show "map_of (store_upsert_all b ?s1) = map_of ?s1"
    by (simp add: map_of_store_upsert_all fun_eq_iff map_add_def split: option.splits)
qed

lemma store_upsert_all_known_length:
  "fst ` set b \<subseteq> fst ` set st \<Longrightarrow> length (store_upsert_all b st) = length st"
  using map_fst_store_upsert_all [of b st] by (metis length_map)

lemma sort_key_fst_unique:
  assumes "distinct (map fst m1)" "distinct (map fst m2)" "set m1 = set m2"
  shows "sort_key fst m1 = sort_key fst (m2 :: ('k::linorder \<times> 'v) list)"
proof (rule properties_for_sort_key)
  have d1: "distinct m1" and d2: "distinct m2"
    using assms(1,2) by (auto simp: distinct_map)
  show "mset (sort_key fst m2) = mset m1"
    using d1 d2 assms(3) by (simp add: set_eq_iff_mset_eq_distinct)
  show "sorted (map fst (sort_key fst m2))" by simp
  fix k assume "k \<in> set (sort_key fst m2)"
  then have k2: "k \<in> set m2" by simp
  then have k1: "k \<in> set m1" using assms(3) by simp
  have gen: "\<And>m. distinct (map fst m) \<Longrightarrow> k \<in> set m \<Longrightarrow> filter (\<lambda>x. fst k = fst x) m = [k]"
  proof -
    fix m :: "('k \<times> 'v) list"
    show "distinct (map fst m) \<Longrightarrow> k \<in> set m \<Longrightarrow> filter (\<lambda>x. fst k = fst x) m = [k]"
      by (induction m) (auto simp: filter_empty_conv rev_image_eqI)
  qed
  have "mset (map fst (sort_key fst m2)) = mset (map fst m2)" by simp
  then have "distinct (map fst (sort_key fst m2))"
    using assms(2) by (metis mset_eq_imp_distinct_iff)
  then have "filter (\<lambda>x. fst k = fst x) (sort_key fst m2) = [k]"
    by (rule gen) (simp add: k2)
  then show "filter (\<lambda>x. fst k = fst x) (sort_key fst m2) = filter (\<lambda>x. fst k = fst x) m1"
    using gen [OF assms(1) k1] by simp
qed

lemma keys_batch_of: "map fst (batch_of svc docs) = map (doc_id svc) docs"
  by (simp add: batch_of_def)

lemma add_documents_spec:
  assumes "collection_add svc = spec_collection_add"
  shows "add_documents svc w docs = (True, store_upsert_all (batch_of svc docs) w)"
  by (simp add: add_documents_def assms spec_collection_add_def batch_of_def Let_def
        store_upsert_all_def doc_id_def [abs_def])

lemma generate_doc_id_key_order:
  assumes "distinct (map fst m1)" "distinct (map fst m2)" "set m1 = set m2"
  shows "generate_doc_id svc c m1 = generate_doc_id svc c m2"
  by (simp add: generate_doc_id_def sort_key_fst_unique [OF assms])

lemma same_record_ids:
  "list_all2 same_record docs docs' \<Longrightarrow> map (doc_id svc) docs' = map (doc_id svc) docs"
proof (induction rule: list_all2_induct)
  case Nil
  then show ?case by simp
next
  case (Cons a docs b docs')
  then show ?case
    using generate_doc_id_key_order [of "get_metadata a" "get_metadata b" svc "content a"]
    by (simp add: same_record_def doc_id_def)
qed

text \<open>
  C3. The identifier of a chunk is the hash of its content, an underscore, and the hash of
  its metadata rendered with the keys sorted, so records that differ only in the order of
  their metadata keys get the same identifiers. Over the store of the specification,
  adding the same records a second time succeeds and leaves \<open>count()\<close> as the first
  call left it; when the store held one record per identifier, the second call leaves
  the whole store as it was.
\<close>

theorem upsert_twice_is_noop:
  fixes svc :: "(store, 'd) rag_service"
  assumes add: "collection_add svc = spec_collection_add"
      and cnt: "collection_count svc = spec_collection_count"
      and same: "list_all2 same_record docs docs'"
  shows "map (doc_id svc) docs' = map (doc_id svc) docs
       \<and> (\<forall>doc \<in> set docs. doc_id svc doc
             = md5_hexdigest svc (content doc) @ ''_''
               @ md5_hexdigest svc (json_dumps_items svc (sort_key fst (get_metadata doc))))
       \<and> fst (add_documents svc (snd (add_documents svc w docs)) docs')
       \<and> fst (document_count svc (snd (add_documents svc (snd (add_documents svc w docs)) docs')))
           = fst (document_count svc (snd (add_documents svc w docs)))
       \<and> (distinct (map fst w) \<longrightarrow>
            snd (add_documents svc (snd (add_documents svc w docs)) docs)
              = snd (add_documents svc w docs))"
proof -
  let ?w1 = "store_upsert_all (batch_of svc docs) w"
  have w1: "snd (add_documents svc w docs) = ?w1"
    by (simp add: add_documents_spec [OF add])
  have count: "fst (document_count svc st) = length st" for st
    by (simp add: document_count_def cnt spec_collection_count_def)
  have ids: "map (doc_id svc) docs' = map (doc_id svc) docs"
    by (rule same_record_ids [OF same])
  have "fst ` set (batch_of svc docs') = set (map fst (batch_of svc docs'))" by simp
  also have "\<dots> = set (map fst (batch_of svc docs))" by (simp only: keys_batch_of ids)
  also have "\<dots> = fst ` set (batch_of svc docs)" by simp
  finally have "fst ` set (batch_of svc docs') \<subseteq> fst ` set ?w1"
    by (simp add: keys_store_upsert_all)
  then have len: "length (store_upsert_all (batch_of svc docs') ?w1) = length ?w1"
    by (rule store_upsert_all_known_length)
  have 2: "\<forall>doc \<in> set docs. doc_id svc doc
             = md5_hexdigest svc (content doc) @ ''_''
               @ md5_hexdigest svc (json_dumps_items svc (sort_key fst (get_metadata doc)))"
    by (simp add: doc_id_def generate_doc_id_def)
  have 3: "fst (add_documents svc (snd (add_documents svc w docs)) docs')"
    by (simp add: add_documents_spec [OF add])
  have 4: "fst (document_count svc (snd (add_documents svc (snd (add_documents svc w docs)) docs')))
           = fst (document_count svc (snd (add_documents svc w docs)))"
    by (simp add: count add_documents_spec [OF add] len)
  have 5: "distinct (map fst w) \<longrightarrow>
            snd (add_documents svc (snd (add_documents svc w docs)) docs)
              = snd (add_documents svc w docs)"
    by (simp add: add_documents_spec [OF add] store_upsert_all_twice)
  from ids 2 3 4 5 show ?thesis by blast
qed

theorem upsert_twice_is_noop_witness:
  "collection_add spec_store_service = spec_collection_add
   \<and> collection_count spec_store_service = spec_collection_count
   \<and> list_all2 same_record [record_a] [record_a']
   \<and> doc_id spec_store_service record_a' = doc_id spec_store_service record_a
   \<and> fst (document_count spec_store_service
        (snd (add_documents spec_store_service
           (snd (add_documents spec_store_service [] [record_a])) [record_a'])))
     = fst (document_count spec_store_service
        (snd (add_documents spec_store_service [] [record_a])))"
proof -
  have a: "collection_add spec_store_service = spec_collection_add"
    and c: "collection_count spec_store_service = spec_collection_count"
    by (simp_all add: spec_store_service_def)
  have s: "list_all2 same_record [record_a] [record_a']"
    by (auto simp add: same_record_def record_a_def record_a'_def get_metadata_def)
  show ?thesis
    using upsert_twice_is_noop [OF a c s, of "[]"] a c s by simp
qed

text \<open>A service that counts its calls shows the call that a non-empty list makes.\<close>

lemma add_documents_nonempty_calls_store:
  "add_documents counting_service 0 [\<lparr>content = ''a'', metadata = None\<rparr>] = (True, 1)"
  by (simp add: add_documents_def counting_service_def)

text \<open>
  C9. \<open>add_documents\<close> on the empty list answers \<open>True\<close> and returns the world it was
  given, for every service: no call of the store is made, and the store's contents and
  count are what they were.
\<close>

theorem add_documents_empty:
  "add_documents svc w [] = (True, w)
   \<and> document_count svc (snd (add_documents svc w [])) = document_count svc w"
  by (simp add: add_documents_def)

theorem add_documents_empty_witness:
  "add_documents counting_service 0 [] = (True, 0)"
  using add_documents_empty [of counting_service 0] by simp

section \<open>Searching\<close>

lemma collect_map_Inr:
  "(\<And>x. x \<in> set xs \<Longrightarrow> f x = Inr (g x)) \<Longrightarrow> collect (map f xs) = Inr (map g xs)"
  by (induction xs) auto

lemma collect_length: "collect xs = Inr vs \<Longrightarrow> length vs = length xs"
  by (induction xs arbitrary: vs) (auto split: sum.splits)

lemma collect_nth:
  "collect xs = Inr vs \<Longrightarrow> i < length xs \<Longrightarrow> xs ! i = Inr (vs ! i)"
proof (induction xs arbitrary: vs i)
  case Nil
  then show ?case by simp
next
  case (Cons x xs)
  then show ?case by (cases i) (auto split: sum.splits)
qed

lemma format_result_content:
  "format_result res i doc = Inr r \<Longrightarrow> result_content r = doc"
  by (auto simp: format_result_def split: sum.splits)

lemma format_result_distance:
  "format_result res i doc = Inr r \<Longrightarrow> distances res = Some (dist # drest)
     \<Longrightarrow> i < length dist \<and> distance r = Some (dist ! i)"
  by (auto simp: format_result_def index_def split: sum.splits if_splits)

lemma format_results_shape:
  assumes "format_results res = Inr rs" "documents res = Some (ds # rest)"
  shows "length rs = length ds"
    and "map result_content rs = ds"
    and "distances res = Some (dist # drest) \<Longrightarrow> map distance rs = map Some (take (length rs) dist)"
proof -
  let ?xs = "map (\<lambda>(i, doc). format_result res i doc) (enumerate 0 ds)"
  from assms have c: "collect ?xs = Inr rs" by (simp add: format_results_def)
  from collect_length [OF c] show len: "length rs = length ds" by simp
  have nth: "format_result res i (ds ! i) = Inr (rs ! i)" if "i < length ds" for i
    using collect_nth [OF c, of i] that by (simp add: nth_enumerate_eq)
  show "map result_content rs = ds"
    using len format_result_content [OF nth] by (auto intro: nth_equalityI)
  assume d: "distances res = Some (dist # drest)"
  have le: "length ds \<le> length dist"
  proof (cases ds rule: rev_cases)
    case Nil
    then show ?thesis by simp
  next
    case (snoc ds' x)
    then have "length ds' < length ds" by simp
    from format_result_distance [OF nth [OF this] d] show ?thesis using snoc by simp
  qed
  show "map distance rs = map Some (take (length rs) dist)"
    using len le format_result_distance [OF nth d] by (auto intro!: nth_equalityI)
qed


lemma search_documents_cases:
  assumes "collection_query svc w [query] k = (answer, w')"
  shows "search_documents svc w query k =
           (case answer of
              Inl e \<Rightarrow> ([], w')
            | Inr res \<Rightarrow> (case format_results res of Inl e \<Rightarrow> ([], w') | Inr rs \<Rightarrow> (rs, w')))"
  using assms by (simp add: search_documents_def split: sum.splits)

lemma ranked_search:
  "search_documents ranked_service 0 ''q'' 5 =
    ([\<lparr>result_content = ''near'', result_metadata = [], distance = Some 1\<rparr>,
      \<lparr>result_content = ''far'', result_metadata = [], distance = Some 5\<rparr>], 1)"
  by (simp add: search_documents_def ranked_service_def ranked_answer_def format_results_def
      format_result_def index_def enumerate_eq_zip)

text \<open>
  C7. \<open>search_documents\<close> never raises. When the store raises, or answers with no
  documents (no list, an empty list, or an empty first list, as an empty store does), the
  result is the empty list. When the store answers the query for \<open>k\<close> results with at
  most \<open>k\<close> documents and their distances in ascending order, the result has at most
  \<open>k\<close> entries, each with its distance, in ascending order of distance.
\<close>

theorem search_documents_at_most_k_ascending:
  fixes svc :: "('w, 'd::linorder) rag_service"
  assumes q: "collection_query svc w [query] k = (answer, w')"
  shows "(answer = Inl e \<longrightarrow> search_documents svc w query k = ([], w'))
       \<and> (answer = Inr res \<and>
            (documents res = None \<or> documents res = Some [] \<or> documents res = Some ([] # rest))
            \<longrightarrow> search_documents svc w query k = ([], w'))
       \<and> (answer = Inr res \<and> documents res = Some (ds # rest) \<and> int (length ds) \<le> k \<and>
            distances res = Some (dist # drest) \<and> sorted dist
            \<longrightarrow> (\<exists>rs. search_documents svc w query k = (rs, w') \<and> int (length rs) \<le> k \<and>
                     (\<exists>ds'. map distance rs = map Some ds' \<and> sorted ds')))"
proof (intro conjI impI)
  assume "answer = Inl e"
  then show "search_documents svc w query k = ([], w')"
    by (simp add: search_documents_cases [OF q])
next
  assume "answer = Inr res \<and>
    (documents res = None \<or> documents res = Some [] \<or> documents res = Some ([] # rest))"
  then show "search_documents svc w query k = ([], w')"
    by (auto simp: search_documents_cases [OF q] format_results_def)
next
  assume a: "answer = Inr res \<and> documents res = Some (ds # rest) \<and> int (length ds) \<le> k \<and>
            distances res = Some (dist # drest) \<and> sorted dist"
  show "\<exists>rs. search_documents svc w query k = (rs, w') \<and> int (length rs) \<le> k \<and>
                     (\<exists>ds'. map distance rs = map Some ds' \<and> sorted ds')"
  proof (cases "format_results res")
    case (Inl e')
    then have "search_documents svc w query k = ([], w')"
      using a by (simp add: search_documents_cases [OF q])
    moreover have "(0::int) \<le> k" using a by linarith
    ultimately show ?thesis by simp
  next
    case (Inr rs)
    then have s: "search_documents svc w query k = (rs, w')"
      using a by (simp add: search_documents_cases [OF q])
    from a have docs: "documents res = Some (ds # rest)"
      and d: "distances res = Some (dist # drest)" by simp_all
    have "length rs = length ds" by (rule format_results_shape(1) [OF Inr docs])
    moreover have "map distance rs = map Some (take (length rs) dist)"
      by (rule format_results_shape(3) [OF Inr docs d])
    moreover have "sorted (take (length rs) dist)" using a by (simp add: sorted_wrt_take)
    ultimately show ?thesis using s a by auto
  qed
qed

theorem search_documents_at_most_k_ascending_witness:
  "collection_query ranked_service 0 [''q''] 5 = (Inr ranked_answer, 1)
   \<and> (\<exists>rs. search_documents ranked_service 0 ''q'' 5 = (rs, 1) \<and> int (length rs) \<le> 5 \<and>
          (\<exists>ds'. map distance rs = map Some ds' \<and> sorted ds'))
   \<and> collection_query empty_store_service 0 [''q''] 5 = (Inr empty_answer, 1)
   \<and> search_documents empty_store_service 0 ''q'' 5 = ([], 1)"
proof -
  have q: "collection_query ranked_service 0 [''q''] 5 = (Inr ranked_answer, 1)"
    by (simp add: ranked_service_def)
  have q0: "collection_query empty_store_service 0 [''q''] 5 = (Inr empty_answer, 1)"
    by (simp add: empty_store_service_def)
  show ?thesis
    using search_documents_at_most_k_ascending [OF q, where res = ranked_answer and rest = "[]"
        and ds = "[''near'', ''far'']" and dist = "[1, 5]" and drest = "[]"]
      search_documents_at_most_k_ascending [OF q0, where res = empty_answer and rest = "[]"]
    by (simp add: q q0 ranked_answer_def empty_answer_def)
qed

section \<open>Generating the answer\<close>

lemma generate_response_missing_key:
  assumes "ollama_generate svc w model (prompt_for query context_docs) = (Inr response, w')"
  shows "generate_response svc w query context_docs model
           = (case response ''response'' of
                None \<Rightarrow> (''Error generating response: '' @ str_of (KeyError ''response''), w')
              | Some answer \<Rightarrow> (answer, w'))"
  using assms by (simp add: generate_response_def prompt_for_def Let_def)

text \<open>
  C10. When the generation call raises, \<open>generate_response\<close> returns the text
  \<open>Error generating response: \<close> followed by the message of the exception, and raises
  nothing. The result is a string like any answer: a service that generates that very
  text gives the caller the same result as the service that fails.
\<close>

theorem generate_response_failure_is_text:
  assumes "ollama_generate svc w model (prompt_for query context_docs) = (Inl e, w')"
  shows "generate_response svc w query context_docs model
           = (''Error generating response: '' @ str_of e, w')
       \<and> generate_response (answering_service (''Error generating response: '' @ str_of e)) n
           query context_docs model
         = generate_response (failing_service e) n query context_docs model"
  using assms
  by (simp add: generate_response_def prompt_for_def Let_def failing_service_def
        answering_service_def)

theorem generate_response_failure_is_text_witness:
  "ollama_generate (failing_service (ExternalError ''timed out'')) 0 ''llama2''
      (prompt_for ''why?'' []) = (Inl (ExternalError ''timed out''), 1)
   \<and> generate_response (failing_service (ExternalError ''timed out'')) 0 ''why?'' [] ''llama2''
      = (''Error generating response: timed out'', 1)
   \<and> generate_response (answering_service ''Error generating response: timed out'') 0
         ''why?'' [] ''llama2''
      = (''Error generating response: timed out'', 1)"
  using generate_response_failure_is_text
    [of "failing_service (ExternalError ''timed out'')" 0 "''llama2''" "''why?''" "[]"
        "ExternalError ''timed out''" 1 0]
  by (simp add: failing_service_def)

section \<open>Sentence boundaries\<close>

lemma split_on_many_Suc: "Suc 0 < length (split_on sep s) \<longleftrightarrow> sep \<in> set s"
  using split_on_many [of sep s] by simp

lemma window_end_last:
  "\<not> start + chunk_size dp < int (length tokens) \<Longrightarrow>
   window_end dp tokens start = Inr (start + chunk_size dp)"
  by (simp add: window_end_def Let_def)

lemma window_end_inner:
  "start + chunk_size dp < int (length tokens) \<Longrightarrow>
   window_end dp tokens start =
     (if CHR ''.'' \<in> set (window_text dp tokens start)
      then (case encode (encoding dp) (snap_text (split_on CHR ''.'' (window_text dp tokens start))) of
              Inl e \<Rightarrow> Inl e
            | Inr ts \<Rightarrow> Inr (start + int (length ts)))
      else Inr (start + chunk_size dp))"
  by (simp add: window_end_def Let_def window_text_def window_def split_on_many_Suc)

text \<open>
  C5. For every window that is not the last (\<open>end < len(tokens)\<close>): the tentative
  window has \<open>chunk_size\<close> tokens (for a start that is not negative); its text
  splits on \<open>.\<close> into more than one fragment exactly when it contains a \<open>.\<close>; if it
  contains none, the end stays \<open>start + chunk_size\<close>; if it does, the fragments but the
  last, joined with \<open>.\<close> and closed by \<open>.\<close>, are the text up to and including the
  last \<open>.\<close> of the window, and the end is \<open>start\<close> plus the number of tokens that
  text encodes to (or the encoder's exception).
\<close>

theorem sentence_snap:
  assumes "start + chunk_size dp < int (length tokens)"
  shows "(0 \<le> start \<and> 0 \<le> chunk_size dp
            \<longrightarrow> length (window dp tokens start) = nat (chunk_size dp))
       \<and> (1 < length (split_on CHR ''.'' (window_text dp tokens start))
            \<longleftrightarrow> CHR ''.'' \<in> set (window_text dp tokens start))
       \<and> (CHR ''.'' \<notin> set (window_text dp tokens start)
            \<longrightarrow> window_end dp tokens start = Inr (start + chunk_size dp))
       \<and> (window_text dp tokens start = p @ CHR ''.'' # q \<and> CHR ''.'' \<notin> set q
            \<longrightarrow> join ''.'' (butlast (split_on CHR ''.'' (window_text dp tokens start))) @ ''.''
                  = p @ ''.''
              \<and> window_end dp tokens start
                  = (case encode (encoding dp) (p @ ''.'') of
                       Inl e \<Rightarrow> Inl e
                     | Inr ts \<Rightarrow> Inr (start + int (length ts))))"
proof -
  have 1: "0 \<le> start \<and> 0 \<le> chunk_size dp
            \<longrightarrow> length (window dp tokens start) = nat (chunk_size dp)"
    using assms by (auto simp add: window_def py_slice_nonneg nat_add_distrib)
  have 2: "1 < length (split_on CHR ''.'' (window_text dp tokens start))
            \<longleftrightarrow> CHR ''.'' \<in> set (window_text dp tokens start)"
    by (rule split_on_many)
  have 3: "CHR ''.'' \<notin> set (window_text dp tokens start)
            \<longrightarrow> window_end dp tokens start = Inr (start + chunk_size dp)"
    by (simp add: window_end_inner [OF assms])
  have 4: "window_text dp tokens start = p @ CHR ''.'' # q \<and> CHR ''.'' \<notin> set q
            \<longrightarrow> join ''.'' (butlast (split_on CHR ''.'' (window_text dp tokens start))) @ ''.''
                  = p @ ''.''
              \<and> window_end dp tokens start
                  = (case encode (encoding dp) (p @ ''.'') of
                       Inl e \<Rightarrow> Inl e
                     | Inr ts \<Rightarrow> Inr (start + int (length ts)))"
  proof
    assume a: "window_text dp tokens start = p @ CHR ''.'' # q \<and> CHR ''.'' \<notin> set q"
    then have s: "snap_text (split_on CHR ''.'' (window_text dp tokens start)) = p @ ''.''"
      by (simp add: snap_text_last_dot)
    have d: "CHR ''.'' \<in> set (window_text dp tokens start)" using a by simp
    show "join ''.'' (butlast (split_on CHR ''.'' (window_text dp tokens start))) @ ''.''
                  = p @ ''.''
              \<and> window_end dp tokens start
                  = (case encode (encoding dp) (p @ ''.'') of
                       Inl e \<Rightarrow> Inl e
                     | Inr ts \<Rightarrow> Inr (start + int (length ts)))"
      using s d by (simp add: window_end_inner [OF assms] snap_text_def)
  qed
  from 1 2 3 4 show ?thesis by blast
qed

theorem sentence_snap_witness:
  "0 + chunk_size small_processor < int (length ''ab.cdefgh'')
   \<and> length (window small_processor ''ab.cdefgh'' 0) = 4
   \<and> window_text small_processor ''ab.cdefgh'' 0 = ''ab'' @ CHR ''.'' # ''c''
   \<and> CHR ''.'' \<notin> set ''c''
   \<and> window_end small_processor ''ab.cdefgh'' 0 = Inr 3"
proof -
  have a: "0 + chunk_size small_processor < int (length ''ab.cdefgh'')"
    by (simp add: small_processor_def)
  have w: "window_text small_processor ''ab.cdefgh'' 0 = ''ab'' @ CHR ''.'' # ''c''"
    by (simp add: window_text_def window_def small_processor_def char_encoding_def
          py_slice_def slice_bound_def)
  show ?thesis
    using sentence_snap [OF a, of "''ab''" "''c''"] a w
    by (simp add: small_processor_def char_encoding_def)
qed

section \<open>The round trip of a small text file\<close>

lemma strip_hello_world: "strip ''hello world'' = ''hello world''"
  by (simp add: strip_def isspace_def)

lemma py_slice_all: "0 \<le> j \<Longrightarrow> length xs \<le> nat j \<Longrightarrow> py_slice xs 0 j = xs"
  by (simp add: py_slice_nonneg)

lemma simple_loop_hello_world:
  "simple_loop ''hello world'' 4000 800 0 [] = Some [''hello world'']"
  apply (subst simple_loop.simps)
  apply (simp add: py_slice_all strip_hello_world Let_def)
  apply (subst simple_loop.simps)
  apply simp
  done

lemma chunk_loop_hello_world:
  assumes "chunk_size dp = 1000" "chunk_overlap dp = 200"
    and "tokens \<noteq> []" "length tokens \<le> 800"
    and "decode (encoding dp) tokens = ''hello world''"
  shows "chunk_loop dp tokens 0 [] = Some (Inr [''hello world''])"
proof -
  have e: "window_end dp tokens 0 = Inr 1000"
    using assms by (simp add: window_end_last)
  have n: "next_start dp 1000 = 800" using assms by (simp add: next_start_def)
  have s: "py_slice tokens 0 1000 = tokens" using assms by (simp add: py_slice_all)
  have "chunk_loop dp tokens 0 [] = chunk_loop dp tokens 800 [''hello world'']"
    using assms(3) by (subst chunk_loop.simps) (simp add: e n s assms(5) strip_hello_world)
  also have "\<dots> = Some (Inr [''hello world''])"
    using assms(4) by (subst chunk_loop.simps) simp
  finally show ?thesis .
qed

lemma split_hello_world:
  assumes "chunk_size dp = 1000" "chunk_overlap dp = 200"
    and "(\<exists>e. encode (encoding dp) ''hello world'' = Inl e) \<or>
         (\<exists>tokens. encode (encoding dp) ''hello world'' = Inr tokens \<and> tokens \<noteq> [] \<and>
            length tokens \<le> 800 \<and> decode (encoding dp) tokens = ''hello world'')"
  shows "split_text_into_chunks dp ''hello world'' = Some [''hello world'']"
  using assms(3)
proof (elim disjE exE conjE)
  fix e assume "encode (encoding dp) ''hello world'' = Inl e"
  then show ?thesis
    by (simp add: split_text_into_chunks_def simple_text_split_def assms(1,2)
          simple_loop_hello_world)
next
  fix tokens
  assume "encode (encoding dp) ''hello world'' = Inr tokens" "tokens \<noteq> []"
    "length tokens \<le> 800" "decode (encoding dp) tokens = ''hello world''"
  then show ?thesis
    by (simp add: split_text_into_chunks_def chunk_loop_hello_world [OF assms(1,2)])
qed

text \<open>
  C4. With chunk size 1000 and overlap 200, a file with extension txt whose bytes decode
  to \<open>hello world\<close> is processed into exactly one document, whose content is
  \<open>hello world\<close>, with chunk index 0 of 1. The tokenizer is external: it either raises
  on the text (the character fallback then gives the same chunk), or encodes it into at
  least one and at most 800 tokens that decode back to the text (eleven characters
  give a byte-pair tokenizer at most eleven tokens).
\<close>

theorem hello_world_one_chunk:
  assumes "chunk_size dp = 1000" "chunk_overlap dp = 200"
    and "file_extension (name uploaded) = ''txt''"
    and "decode_utf8 libs (file_bytes uploaded) = Inr ''hello world''"
    and "(\<exists>e. encode (encoding dp) ''hello world'' = Inl e) \<or>
         (\<exists>tokens. encode (encoding dp) ''hello world'' = Inr tokens \<and> tokens \<noteq> [] \<and>
            length tokens \<le> 800 \<and> decode (encoding dp) tokens = ''hello world'')"
  shows "process_uploaded_file dp libs w uploaded
         = Some (Inr [\<lparr>content = ''hello world'',
                        metadata = Some [(''filename'', JStr (name uploaded)),
                                         (''file_type'', JStr ''txt''),
                                         (''chunk_index'', JInt 0),
                                         (''total_chunks'', JInt 1)]\<rparr>], w)"
  using assms(3,4)
  by (simp add: process_uploaded_file_def get_file_type_def Let_def strip_hello_world
        split_hello_world [OF assms(1,2,5)] make_documents_def enumerate_int_def)

theorem hello_world_one_chunk_witness:
  "chunk_size default_processor = 1000 \<and> chunk_overlap default_processor = 200
   \<and> file_extension (name \<lparr>name = ''note.txt'', file_bytes = ''hello world''\<rparr>) = ''txt''
   \<and> decode_utf8 counting_libraries (file_bytes \<lparr>name = ''note.txt'', file_bytes = ''hello world''\<rparr>)
       = Inr ''hello world''
   \<and> encode (encoding default_processor) ''hello world'' = Inr ''hello world''
   \<and> process_uploaded_file default_processor counting_libraries 0
        \<lparr>name = ''note.txt'', file_bytes = ''hello world''\<rparr>
       = Some (Inr [\<lparr>content = ''hello world'',
                      metadata = Some [(''filename'', JStr ''note.txt''),
                                       (''file_type'', JStr ''txt''),
                                       (''chunk_index'', JInt 0),
                                       (''total_chunks'', JInt 1)]\<rparr>], 0)"
proof -
  have e: "file_extension (name \<lparr>name = ''note.txt'', file_bytes = ''hello world''\<rparr>) = ''txt''"
    by (simp add: file_extension_def lower_def lower_char_def)
  have t: "encode (encoding default_processor) ''hello world'' = Inr ''hello world''"
    "decode (encoding default_processor) ''hello world'' = ''hello world''"
    by (simp_all add: default_processor_def char_encoding_def)
  have s: "chunk_size default_processor = 1000" "chunk_overlap default_processor = 200"
    by (simp_all add: default_processor_def)
  have d: "decode_utf8 counting_libraries
             (file_bytes \<lparr>name = ''note.txt'', file_bytes = ''hello world''\<rparr>) = Inr ''hello world''"
    by (simp add: counting_libraries_def)
  have tok: "(\<exists>e. encode (encoding default_processor) ''hello world'' = Inl e) \<or>
         (\<exists>tokens. encode (encoding default_processor) ''hello world'' = Inr tokens \<and> tokens \<noteq> [] \<and>
            length tokens \<le> 800 \<and> decode (encoding default_processor) tokens = ''hello world'')"
    using t by simp
  show ?thesis
    using hello_world_one_chunk [OF s e d tok, of 0] e t s d by simp
qed

section \<open>The character fallback\<close>

lemma window_count:
  assumes "0 < step"
  shows "k < (n + step - 1) div step \<longleftrightarrow> k * step < (n::nat)"
proof -
  have "k < (n + step - 1) div step \<longleftrightarrow> Suc k \<le> (n + step - 1) div step" by auto
  also have "\<dots> \<longleftrightarrow> Suc k * step \<le> n + step - 1"
    using assms by (simp only: less_eq_div_iff_mult_less_eq)
  also have "\<dots> \<longleftrightarrow> k * step < n" using assms by auto
  finally show ?thesis .
qed

lemma py_slice_window:
  "0 \<le> cs \<Longrightarrow> py_slice xs (int m) (int m + cs) = take (nat cs) (drop m xs)"
  by (simp add: py_slice_nonneg nat_add_distrib)

lemma simple_loop_windows:
  assumes "0 \<le> co" "co < cs"
    and step_def: "step = nat (cs - co)"
    and n_def: "n = (length text + step - 1) div step"
  shows "k \<le> n \<Longrightarrow>
         simple_loop text cs co (int (k * step)) acc
         = Some (acc @ filter (\<lambda>c. c \<noteq> [])
                   (map (\<lambda>j. strip (take (nat cs) (drop (j * step) text))) [k..<n]))"
proof (induction "n - k" arbitrary: k acc)
  case 0
  then have k: "k = n" by simp
  have step: "0 < step" using assms by (simp add: step_def)
  have "\<not> k * step < length text"
    using window_count [OF step, of k "length text"] k by (simp add: n_def)
  then have "\<not> int (k * step) < int (length text)" by linarith
  then have "simple_loop text cs co (int (k * step)) acc = Some acc"
    by (subst simple_loop.simps) (simp only: if_False)
  then show ?case by (simp add: k)
next
  case (Suc d)
  then have k: "k < n" by simp
  have step: "0 < step" using assms by (simp add: step_def)
  have inside: "k * step < length text"
    using window_count [OF step, of k "length text"] k by (simp add: n_def)
  let ?chunk = "take (nat cs) (drop (k * step) text)"
  have slice: "py_slice text (int (k * step)) (int (k * step) + cs) = ?chunk"
    using assms(1,2) by (intro py_slice_window) simp
  have nxt: "(if int (k * step) + cs - co \<ge> int (k * step) + cs then int (k * step) + cs
              else int (k * step) + cs - co) = int (Suc k * step)"
    using assms(1,2) by (auto simp: step_def)
  have "simple_loop text cs co (int (k * step)) acc
        = simple_loop text cs co (int (Suc k * step))
            (if strip ?chunk \<noteq> [] then acc @ [strip ?chunk] else acc)"
    using inside
    by (subst simple_loop.simps) (simp only: Let_def slice nxt of_nat_less_iff if_True)
  also have "\<dots> = Some ((if strip ?chunk \<noteq> [] then acc @ [strip ?chunk] else acc)
      @ filter (\<lambda>c. c \<noteq> [])
          (map (\<lambda>j. strip (take (nat cs) (drop (j * step) text))) [Suc k..<n]))"
    using Suc.hyps(2) k by (intro Suc.hyps(1)) simp_all
  also have "\<dots> = Some (acc @ filter (\<lambda>c. c \<noteq> [])
                   (map (\<lambda>j. strip (take (nat cs) (drop (j * step) text))) [k..<n]))"
    using k by (simp add: upt_conv_Cons)
  finally show ?case .
qed

lemma simple_text_split_windows:
  assumes "0 \<le> chunk_overlap dp" "chunk_overlap dp < chunk_size dp"
  shows "simple_text_split dp text
         = Some (filter (\<lambda>c. c \<noteq> [])
                   (map strip (char_windows (chunk_size dp) (chunk_overlap dp) text)))"
proof -
  have "simple_loop text (chunk_size dp * 4) (chunk_overlap dp * 4)
          (int (0 * nat (chunk_size dp * 4 - chunk_overlap dp * 4))) []
        = Some ([] @ filter (\<lambda>c. c \<noteq> [])
            (map (\<lambda>j. strip (take (nat (chunk_size dp * 4))
                        (drop (j * nat (chunk_size dp * 4 - chunk_overlap dp * 4)) text)))
               [0..<(length text + nat (chunk_size dp * 4 - chunk_overlap dp * 4) - 1)
                     div nat (chunk_size dp * 4 - chunk_overlap dp * 4)]))"
    using assms by (intro simple_loop_windows [OF _ _ refl refl]) simp_all
  then show ?thesis
    by (simp add: simple_text_split_def char_windows_def Let_def comp_def)
qed

lemma nth_take_drop:
  "m \<le> i \<Longrightarrow> i - m < width \<Longrightarrow> i < length xs \<Longrightarrow>
   take width (drop m xs) ! (i - m) = xs ! i \<and> i - m < length (take width (drop m xs))"
  by simp

lemma char_windows_cover:
  assumes "0 \<le> overlap" "overlap < csize" "i < length text"
  shows "\<exists>w \<in> set (char_windows csize overlap text). text ! i \<in> set w"
proof -
  define step where "step = nat (csize * 4 - overlap * 4)"
  define width where "width = nat (csize * 4)"
  define k where "k = i div step"
  define m where "m = k * step"
  have step: "0 < step" and le: "step \<le> width" using assms by (simp_all add: step_def width_def)
  have lo: "m \<le> i" by (simp add: m_def k_def)
  have "i - m = i mod step" by (simp add: m_def k_def minus_div_mult_eq_mod)
  then have "i - m < step" using step by simp
  then have hi: "i - m < width" using le by simp
  have "m < length text" using lo assms(3) by (rule le_less_trans)
  then have k: "k < (length text + step - 1) div step"
    unfolding m_def by (simp only: window_count [OF step])
  let ?w = "take width (drop m text)"
  from nth_take_drop [OF lo hi assms(3)] have "text ! i \<in> set ?w" by (metis nth_mem)
  moreover have "?w \<in> set (char_windows csize overlap text)"
    using k by (auto simp: char_windows_def Let_def step_def width_def m_def)
  ultimately show ?thesis by blast
qed

lemma simple_text_split_nonblank:
  assumes "0 \<le> chunk_overlap dp" "chunk_overlap dp < chunk_size dp" "strip text \<noteq> []"
  shows "filter (\<lambda>c. c \<noteq> [])
           (map strip (char_windows (chunk_size dp) (chunk_overlap dp) text)) \<noteq> []"
proof -
  from assms(3) obtain c where c: "c \<in> set text" "\<not> isspace c"
    by (auto simp: strip_eq_Nil)
  then obtain i where i: "i < length text" "text ! i = c" by (auto simp: in_set_conv_nth)
  from char_windows_cover [OF assms(1,2) i(1)] obtain w
    where w: "w \<in> set (char_windows (chunk_size dp) (chunk_overlap dp) text)" "c \<in> set w"
    using i(2) by auto
  have "strip w \<noteq> []" using c(2) w(2) by (rule strip_nonblank)
  then have "strip w \<in> set (filter (\<lambda>c. c \<noteq> [])
           (map strip (char_windows (chunk_size dp) (chunk_overlap dp) text)))"
    using w(1) by auto
  then show ?thesis by (metis empty_iff list.set(1))
qed

text \<open>
  C6, as amended. When \<open>encode\<close> raises on the text and \<open>0 \<le> O < S\<close>, the chunker
  returns (it neither raises nor loops) the result of the character fallback: the
  trimmed, non-empty ones among the windows of \<open>S * 4\<close> characters that start every
  \<open>S * 4 - O * 4\<close> characters. Every chunk is non-empty and trimmed, and there is at
  least one chunk whenever the text is non-empty after trimming.
\<close>

theorem fallback_returns_chunks:
  assumes "0 \<le> chunk_overlap dp" "chunk_overlap dp < chunk_size dp"
    and "encode (encoding dp) text = Inl e"
  shows "\<exists>chunks. split_text_into_chunks dp text = Some chunks
       \<and> chunks = filter (\<lambda>c. c \<noteq> [])
                    (map strip (char_windows (chunk_size dp) (chunk_overlap dp) text))
       \<and> (\<forall>c \<in> set chunks. c \<noteq> [] \<and> strip c = c)
       \<and> (strip text \<noteq> [] \<longrightarrow> chunks \<noteq> [])"
proof -
  let ?chunks = "filter (\<lambda>c. c \<noteq> [])
                    (map strip (char_windows (chunk_size dp) (chunk_overlap dp) text))"
  have "split_text_into_chunks dp text = simple_text_split dp text"
    using assms(3) by (simp add: split_text_into_chunks_def)
  then have 1: "split_text_into_chunks dp text = Some ?chunks"
    by (simp only: simple_text_split_windows [OF assms(1,2)])
  have 2: "\<forall>c \<in> set ?chunks. c \<noteq> [] \<and> strip c = c"
    by (auto simp: strip_strip)
  have 3: "strip text \<noteq> [] \<longrightarrow> ?chunks \<noteq> []"
    using simple_text_split_nonblank [OF assms(1,2)] by blast
  from 1 2 3 show ?thesis by blast
qed

theorem fallback_returns_chunks_witness:
  "0 \<le> chunk_overlap fallback_processor
   \<and> chunk_overlap fallback_processor < chunk_size fallback_processor
   \<and> encode (encoding fallback_processor) ''hello world''
       = Inl (ExternalError ''tokenizer unavailable'')
   \<and> strip ''hello world'' \<noteq> []
   \<and> (\<exists>c cs. split_text_into_chunks fallback_processor ''hello world'' = Some (c # cs))"
proof -
  have a: "0 \<le> chunk_overlap fallback_processor"
    "chunk_overlap fallback_processor < chunk_size fallback_processor"
    "encode (encoding fallback_processor) ''hello world''
       = Inl (ExternalError ''tokenizer unavailable'')"
    by (simp_all add: fallback_processor_def failing_encoding_def)
  have s: "strip ''hello world'' \<noteq> []" by (simp add: strip_hello_world)
  from fallback_returns_chunks [OF a] s
  have "\<exists>c cs. split_text_into_chunks fallback_processor ''hello world'' = Some (c # cs)"
    by (metis neq_Nil_conv)
  with a s show ?thesis by blast
qed

text \<open>
  The claim as stated asks for a chunk for every non-empty text; a text of one space is
  non-empty and gets none.
\<close>

theorem fallback_blank_text_counterexample:
  "'' '' \<noteq> [] \<and> encode (encoding fallback_processor) '' '' = Inl (ExternalError ''tokenizer unavailable'')
   \<and> split_text_into_chunks fallback_processor '' '' = Some []"
proof -
  have "simple_loop '' '' 4000 800 0 [] = Some []"
    apply (subst simple_loop.simps)
    apply (simp add: py_slice_def slice_bound_def strip_def isspace_def Let_def)
    apply (subst simple_loop.simps)
    apply simp
    done
  then show ?thesis
    by (simp add: split_text_into_chunks_def simple_text_split_def fallback_processor_def
          failing_encoding_def)
qed

section \<open>Progress of the token loop\<close>

lemma chunk_loop_stuck:
  assumes "start < int (length tokens)"
    and "window_end dp tokens start = Inr e"
    and "next_start dp e = start"
  shows "chunk_loop dp tokens start acc = None"
proof (rule ccontr)
  assume "chunk_loop dp tokens start acc \<noteq> None"
  then obtain y where y: "chunk_loop dp tokens start acc = Some y" by auto
  have "\<not> (d = dp \<and> t = tokens \<and> s = start)"
    if "chunk_loop d t s c = Some r" for d t s c r
    using that
  proof (induction d t s c r rule: chunk_loop.raw_induct [rotated 1, consumes 1])
    case (1 f d t s c r)
    show ?case
    proof
      assume "d = dp \<and> t = tokens \<and> s = start"
      with "1.prems" "1.hyps" "1.IH" assms obtain c' where "f dp tokens start c' = Some r"
        by (simp add: Let_def)
      from "1.IH" [OF this] show False by simp
    qed
  qed
  with y show False by blast
qed

lemma next_start_eq: "0 \<le> chunk_overlap dp \<Longrightarrow> next_start dp e = e - chunk_overlap dp"
  by (auto simp: next_start_def Let_def)

lemma window_text_nonneg:
  "0 \<le> s \<Longrightarrow> 0 \<le> chunk_size dp \<Longrightarrow>
   window_text dp tokens s = decode (encoding dp) (take (nat (chunk_size dp)) (drop (nat s) tokens))"
  by (simp add: window_text_def window_def py_slice_nonneg nat_add_distrib)

lemma stuck_window_0:
  "window_text default_processor stuck_text 0
   = replicate 300 CHR ''a'' @ CHR ''.'' # replicate 699 CHR ''a''"
  by (simp add: window_text_nonneg default_processor_def char_encoding_def stuck_text_def)

lemma stuck_window_101:
  "window_text default_processor stuck_text 101
   = replicate 199 CHR ''a'' @ CHR ''.'' # replicate 800 CHR ''a''"
  by (simp add: window_text_nonneg default_processor_def char_encoding_def stuck_text_def)

lemma stuck_end_0: "window_end default_processor stuck_text 0 = Inr 301"
proof -
  have "(0::int) + chunk_size default_processor < int (length stuck_text)"
    by (simp add: default_processor_def stuck_text_def)
  from window_end_inner [OF this] show ?thesis
    by (simp add: stuck_window_0 snap_text_last_dot)
       (simp add: default_processor_def char_encoding_def)
qed

lemma stuck_end_101: "window_end default_processor stuck_text 101 = Inr 301"
proof -
  have "(101::int) + chunk_size default_processor < int (length stuck_text)"
    by (simp add: default_processor_def stuck_text_def)
  from window_end_inner [OF this] show ?thesis
    by (simp add: stuck_window_101 snap_text_last_dot)
       (simp add: default_processor_def char_encoding_def)
qed

lemma stuck_next_start: "next_start default_processor 301 = 101"
  by (simp add: next_start_def default_processor_def)

lemma stuck_loop: "chunk_loop default_processor stuck_text 101 acc = None"
  by (rule chunk_loop_stuck [OF _ stuck_end_101 stuck_next_start]) (simp add: stuck_text_def)

lemma stuck_split: "split_text_into_chunks default_processor stuck_text = None"
proof -
  have len: "int (length stuck_text) = 2301" by (simp add: stuck_text_def)
  have "chunk_loop default_processor stuck_text 0 [] = None"
    by (subst chunk_loop.simps) (simp add: len stuck_end_0 stuck_next_start stuck_loop Let_def)
  then show ?thesis
    by (simp add: split_text_into_chunks_def default_processor_def char_encoding_def)
qed

text \<open>
  C2. The claim: when \<open>end - O\<close> does not advance past the previous start, the start
  is forced to \<open>end\<close>, so every iteration advances and the loop terminates for
  \<open>0 \<le> O < S\<close>. The code compares the new start with \<open>end\<close>, not with the previous
  start (\<open>if start >= end\<close> after \<open>start = end - self.chunk_overlap\<close>), under the
  comment "Prevent infinite loop". With the default parameters, 1000 and 200, and one
  token per character, the window that starts at token 101 of \<open>stuck_text\<close> is cut
  back to the sentence end at token 301, the next start is \<open>301 - 200 = 101\<close> again,
  and the loop never returns.
\<close>

theorem overlap_step_does_not_advance:
  "window_end default_processor stuck_text 101 = Inr 301
   \<and> next_start default_processor 301 = 101
   \<and> chunk_loop default_processor stuck_text 101 [] = None
   \<and> split_text_into_chunks default_processor stuck_text = None"
  using stuck_end_101 stuck_next_start stuck_loop stuck_split by blast

section \<open>Termination of the token loop\<close>

lemma decode_Nil:
  assumes "\<And>a b. decode enc (a @ b) = decode enc a @ decode enc b"
  shows "decode enc [] = []"
proof -
  have "decode enc ([] @ []) = decode enc [] @ decode enc []" by (rule assms)
  then show ?thesis by simp
qed

lemma decode_drop_split:
  assumes "\<And>a b. decode enc (a @ b) = decode enc a @ decode enc b"
  shows "decode enc (drop m xs) = decode enc (take k (drop m xs)) @ decode enc (drop (m + k) xs)"
proof -
  have "take k (drop m xs) @ drop k (drop m xs) = drop m xs" by (rule append_take_drop_id)
  then have "decode enc (drop m xs) = decode enc (take k (drop m xs) @ drop k (drop m xs))"
    by (rule arg_cong [symmetric])
  also have "\<dots> = decode enc (take k (drop m xs)) @ decode enc (drop k (drop m xs))"
    by (rule assms)
  finally show ?thesis by (simp add: add.commute)
qed

lemma strip_append_nonblank:
  "strip (a @ b) \<noteq> [] \<Longrightarrow> strip a \<noteq> [] \<or> strip b \<noteq> []"
  by (auto simp: strip_eq_Nil)

lemma strip_suffix_nonblank: "strip b \<noteq> [] \<Longrightarrow> strip (a @ b) \<noteq> []"
  by (auto simp: strip_eq_Nil)

lemma chunk_loop_returns:
  assumes ov: "0 \<le> chunk_overlap dp"
    and hom: "\<And>a b. decode (encoding dp) (a @ b)
                = decode (encoding dp) a @ decode (encoding dp) b"
    and keep: "\<And>s e. 0 \<le> s \<Longrightarrow> s < int (length tokens) \<Longrightarrow>
                window_end dp tokens s = Inr e \<Longrightarrow> chunk_overlap dp < e - s"
  shows "0 \<le> start \<Longrightarrow>
         \<exists>res. chunk_loop dp tokens start acc = Some res \<and>
           (\<forall>chunks. res = Inr chunks \<longrightarrow>
              (\<exists>new. chunks = acc @ new \<and> (\<forall>c \<in> set new. c \<noteq> [] \<and> strip c = c) \<and>
                 (strip (decode (encoding dp) (drop (nat start) tokens)) \<noteq> [] \<longrightarrow> new \<noteq> [])))"
proof (induction "nat (int (length tokens) - start)" arbitrary: start acc rule: less_induct)
  case less
  show ?case
  proof (cases "start < int (length tokens)")
    case False
    then have "drop (nat start) tokens = []" using less.prems by simp
    then have "strip (decode (encoding dp) (drop (nat start) tokens)) = []"
      by (simp add: decode_Nil [OF hom] strip_def)
    moreover have "chunk_loop dp tokens start acc = Some (Inr acc)"
      using False by (subst chunk_loop.simps) simp
    ultimately show ?thesis by simp
  next
    case True
    show ?thesis
    proof (cases "window_end dp tokens start")
      case (Inl e)
      have "chunk_loop dp tokens start acc = Some (Inl e)"
        using True Inl by (subst chunk_loop.simps) simp
      then show ?thesis by simp
    next
      case (Inr e)
      have gt: "chunk_overlap dp < e - start" by (rule keep [OF less.prems True Inr])
      define nxt where "nxt = e - chunk_overlap dp"
      define ct where "ct = decode (encoding dp) (py_slice tokens start e)"
      define acc' where "acc' = (if strip ct \<noteq> [] then acc @ [strip ct] else acc)"
      have nxt: "next_start dp e = nxt" by (simp add: nxt_def next_start_eq [OF ov])
      have order: "start < nxt" "nxt \<le> e" "0 \<le> nxt" "start \<le> e"
        using gt ov less.prems by (simp_all add: nxt_def)
      have step: "chunk_loop dp tokens start acc = chunk_loop dp tokens nxt acc'"
        using True Inr by (subst chunk_loop.simps) (simp add: Let_def nxt ct_def acc'_def)
      have "nat (int (length tokens) - nxt) < nat (int (length tokens) - start)"
        using order True by simp
      from less.hyps [OF this order(3), of acc'] obtain res
        where res: "chunk_loop dp tokens nxt acc' = Some res"
          and new': "\<And>chunks. res = Inr chunks \<Longrightarrow>
              \<exists>new. chunks = acc' @ new \<and> (\<forall>c \<in> set new. c \<noteq> [] \<and> strip c = c) \<and>
                 (strip (decode (encoding dp) (drop (nat nxt) tokens)) \<noteq> [] \<longrightarrow> new \<noteq> [])"
        by blast
      have ct: "ct = decode (encoding dp) (take (nat e - nat start) (drop (nat start) tokens))"
        using less.prems order(4) by (simp add: ct_def py_slice_nonneg)
      have here: "decode (encoding dp) (drop (nat start) tokens)
                  = ct @ decode (encoding dp) (drop (nat e) tokens)"
        using decode_drop_split [OF hom, of "nat start" tokens "nat e - nat start"]
          less.prems order(4) by (simp add: ct)
      have there: "decode (encoding dp) (drop (nat nxt) tokens)
                  = decode (encoding dp) (take (nat e - nat nxt) (drop (nat nxt) tokens))
                    @ decode (encoding dp) (drop (nat e) tokens)"
        using decode_drop_split [OF hom, of "nat nxt" tokens "nat e - nat nxt"]
          order(2,3) by simp
      have "\<exists>new. chunks = acc @ new \<and> (\<forall>c \<in> set new. c \<noteq> [] \<and> strip c = c) \<and>
                 (strip (decode (encoding dp) (drop (nat start) tokens)) \<noteq> [] \<longrightarrow> new \<noteq> [])"
        if "res = Inr chunks" for chunks
      proof -
        from new' [OF that] obtain new where new:
          "chunks = acc' @ new" "\<forall>c \<in> set new. c \<noteq> [] \<and> strip c = c"
          "strip (decode (encoding dp) (drop (nat nxt) tokens)) \<noteq> [] \<longrightarrow> new \<noteq> []"
          by blast
        show ?thesis
        proof (cases "strip ct \<noteq> []")
          case True
          then have "chunks = acc @ (strip ct # new)" using new(1) by (simp add: acc'_def)
          moreover have "\<forall>c \<in> set (strip ct # new). c \<noteq> [] \<and> strip c = c"
            using True new(2) by (simp add: strip_strip)
          ultimately show ?thesis by blast
        next
          case False
          then have c: "chunks = acc @ new" using new(1) by (simp add: acc'_def)
          have "new \<noteq> []" if nb: "strip (decode (encoding dp) (drop (nat start) tokens)) \<noteq> []"
          proof -
            from nb here have "strip (ct @ decode (encoding dp) (drop (nat e) tokens)) \<noteq> []"
              by simp
            from strip_append_nonblank [OF this] False
            have "strip (decode (encoding dp) (drop (nat e) tokens)) \<noteq> []" by blast
            then have "strip (decode (encoding dp) (drop (nat nxt) tokens)) \<noteq> []"
              unfolding there by (rule strip_suffix_nonblank)
            with new(3) show ?thesis by blast
          qed
          with c new(2) show ?thesis by blast
        qed
      qed
      with step res show ?thesis by simp
    qed
  qed
qed

text \<open>A text of at most \<open>chunk_size\<close> tokens is one window, which is never cut back.\<close>

lemma single_window_not_cut:
  assumes "0 \<le> s" "int (length tokens) \<le> chunk_size dp"
    and "chunk_overlap dp < chunk_size dp" "window_end dp tokens s = Inr e"
  shows "chunk_overlap dp < e - s"
proof -
  have "window_end dp tokens s = Inr (s + chunk_size dp)"
    using assms(1,2) by (intro window_end_last) simp
  with assms(3,4) show ?thesis by simp
qed

text \<open>
  C1, as amended. Let \<open>0 \<le> O < S\<close>, and let the tokenizer encode the text into tokens
  that decode back to it, decoding a sequence of tokens piece by piece. If the text is
  non-empty after trimming, and no window is cut back at a sentence boundary to \<open>O\<close>
  tokens or fewer, then the chunker terminates and returns at least one chunk, and every
  chunk it returns is non-empty and trimmed. (When a window is cut back to \<open>O\<close> tokens
  or fewer the statement promises nothing.)
\<close>

theorem chunking_returns_chunks:
  assumes "0 \<le> chunk_overlap dp" "chunk_overlap dp < chunk_size dp"
    and "encode (encoding dp) text = Inr tokens"
    and "decode (encoding dp) tokens = text"
    and "\<forall>a b. decode (encoding dp) (a @ b) = decode (encoding dp) a @ decode (encoding dp) b"
    and "\<forall>s e. 0 \<le> s \<and> s < int (length tokens) \<and> window_end dp tokens s = Inr e
           \<longrightarrow> chunk_overlap dp < e - s"
    and "strip text \<noteq> []"
  shows "\<exists>c cs. split_text_into_chunks dp text = Some (c # cs)
           \<and> (\<forall>x \<in> set (c # cs). x \<noteq> [] \<and> strip x = x)"
proof -
  have hom: "\<And>a b. decode (encoding dp) (a @ b)
                = decode (encoding dp) a @ decode (encoding dp) b"
    using assms(5) by blast
  have keep: "\<And>s e. 0 \<le> s \<Longrightarrow> s < int (length tokens) \<Longrightarrow>
                window_end dp tokens s = Inr e \<Longrightarrow> chunk_overlap dp < e - s"
    using assms(6) by blast
  have z: "(0::int) \<le> 0" by simp
  from chunk_loop_returns [where dp = dp and tokens = tokens and start = 0 and acc = "[]",
      OF assms(1) hom keep z] obtain res
    where res: "chunk_loop dp tokens 0 [] = Some res"
      and new: "\<And>chunks. res = Inr chunks \<Longrightarrow>
            \<exists>new. chunks = [] @ new \<and> (\<forall>c \<in> set new. c \<noteq> [] \<and> strip c = c) \<and>
               (strip (decode (encoding dp) (drop (nat 0) tokens)) \<noteq> [] \<longrightarrow> new \<noteq> [])"
    by blast
  have nonblank: "strip (decode (encoding dp) (drop (nat 0) tokens)) \<noteq> []"
    using assms(4,7) by simp
  have "\<exists>chunks. split_text_into_chunks dp text = Some chunks \<and> chunks \<noteq> []
          \<and> (\<forall>x \<in> set chunks. x \<noteq> [] \<and> strip x = x)"
  proof (cases res)
    case (Inl e)
    let ?chunks = "filter (\<lambda>c. c \<noteq> [])
                    (map strip (char_windows (chunk_size dp) (chunk_overlap dp) text))"
    have "split_text_into_chunks dp text = simple_text_split dp text"
      using assms(3) res Inl by (simp add: split_text_into_chunks_def)
    then have "split_text_into_chunks dp text = Some ?chunks"
      by (simp only: simple_text_split_windows [OF assms(1,2)])
    moreover have "?chunks \<noteq> []" by (rule simple_text_split_nonblank [OF assms(1,2,7)])
    moreover have "\<forall>x \<in> set ?chunks. x \<noteq> [] \<and> strip x = x"
    proof
      fix x assume "x \<in> set ?chunks"
      then obtain w where "x = strip w" "x \<noteq> []" by auto
      then show "x \<noteq> [] \<and> strip x = x" by (simp add: strip_strip)
    qed
    ultimately show ?thesis by blast
  next
    case (Inr chunks)
    from new [OF Inr] obtain new where n: "chunks = [] @ new"
      "\<forall>c \<in> set new. c \<noteq> [] \<and> strip c = c"
      "strip (decode (encoding dp) (drop (nat 0) tokens)) \<noteq> [] \<longrightarrow> new \<noteq> []"
      by blast
    from n(1,3) nonblank have "chunks \<noteq> []" by simp
    moreover from n(1,2) have "\<forall>x \<in> set chunks. x \<noteq> [] \<and> strip x = x" by simp
    moreover have "split_text_into_chunks dp text = Some chunks"
      using assms(3) res Inr by (simp add: split_text_into_chunks_def)
    ultimately show ?thesis by blast
  qed
  then obtain chunks where c: "split_text_into_chunks dp text = Some chunks" "chunks \<noteq> []"
    "\<forall>x \<in> set chunks. x \<noteq> [] \<and> strip x = x" by blast
  from c(2) obtain x xs where "chunks = x # xs" by (cases chunks) simp_all
  with c(1,3) show ?thesis by blast
qed

lemma small_window_ends:
  assumes "0 \<le> s" "s < int (length ''abcdefg.hi'')"
    and "window_end small_processor ''abcdefg.hi'' s = Inr e"
  shows "chunk_overlap small_processor < e - s"
proof -
  from assms(1,2) have "s = 0 \<or> s = 1 \<or> s = 2 \<or> s = 3 \<or> s = 4 \<or> s = 5 \<or> 6 \<le> s" by auto
  then show ?thesis
  proof (elim disjE)
    assume "6 \<le> s"
    then have "window_end small_processor ''abcdefg.hi'' s = Inr (s + 4)"
      by (simp add: window_end_last small_processor_def)
    with assms(3) show ?thesis by (simp add: small_processor_def)
  qed (use assms(3) in \<open>simp_all add: window_end_def Let_def py_slice_def slice_bound_def
         small_processor_def char_encoding_def snap_text_def\<close>)
qed

theorem chunking_returns_chunks_witness:
  "0 \<le> chunk_overlap small_processor
   \<and> chunk_overlap small_processor < chunk_size small_processor
   \<and> encode (encoding small_processor) ''abcdefg.hi'' = Inr ''abcdefg.hi''
   \<and> decode (encoding small_processor) ''abcdefg.hi'' = ''abcdefg.hi''
   \<and> strip ''abcdefg.hi'' \<noteq> []
   \<and> (\<exists>c cs. split_text_into_chunks small_processor ''abcdefg.hi'' = Some (c # cs)
           \<and> (\<forall>x \<in> set (c # cs). x \<noteq> [] \<and> strip x = x))"
proof -
  have a: "0 \<le> chunk_overlap small_processor"
    "chunk_overlap small_processor < chunk_size small_processor"
    "encode (encoding small_processor) ''abcdefg.hi'' = Inr ''abcdefg.hi''"
    "decode (encoding small_processor) ''abcdefg.hi'' = ''abcdefg.hi''"
    "\<forall>a b. decode (encoding small_processor) (a @ b)
       = decode (encoding small_processor) a @ decode (encoding small_processor) b"
    by (simp_all add: small_processor_def char_encoding_def)
  have k: "\<forall>s e. 0 \<le> s \<and> s < int (length ''abcdefg.hi'') \<and>
             window_end small_processor ''abcdefg.hi'' s = Inr e
           \<longrightarrow> chunk_overlap small_processor < e - s"
    using small_window_ends by blast
  have n: "strip ''abcdefg.hi'' \<noteq> []"
    by (rule strip_nonblank [of "CHR ''a''"]) (simp_all add: isspace_def)
  from chunking_returns_chunks [OF a k n] a(1-4) n show ?thesis by blast
qed

text \<open>
  The claim as stated asks for a chunk for every non-empty text; a text of one space is
  non-empty, is tokenized, and gets no chunk.
\<close>

theorem chunking_blank_text_counterexample:
  "'' '' \<noteq> [] \<and> 0 \<le> chunk_overlap default_processor
   \<and> chunk_overlap default_processor < chunk_size default_processor
   \<and> encode (encoding default_processor) '' '' = Inr '' ''
   \<and> split_text_into_chunks default_processor '' '' = Some []"
proof -
  have e: "window_end default_processor '' '' 0 = Inr 1000"
    by (simp add: window_end_last default_processor_def)
  have n: "next_start default_processor 1000 = 800"
    by (simp add: next_start_def default_processor_def)
  have d: "decode (encoding default_processor) '' '' = '' ''"
    by (simp add: default_processor_def char_encoding_def)
  have s: "strip '' '' = []" by (simp add: strip_def isspace_def)
  have "chunk_loop default_processor '' '' 0 [] = chunk_loop default_processor '' '' 800 []"
    by (subst chunk_loop.simps) (simp add: e n py_slice_all d s)
  also have "\<dots> = Some (Inr [])"
    by (subst chunk_loop.simps) simp
  finally show ?thesis
    by (simp add: split_text_into_chunks_def default_processor_def char_encoding_def)
qed

text \<open>The chunks of that text: windows of four, two tokens apart, one cut at a sentence end.\<close>

lemma small_chunks:
  "split_text_into_chunks small_processor ''abcdefg.hi''
   = Some [''abcd'', ''cdef'', ''efg.'', ''g.hi'', ''hi'']"
proof -
  have step: "chunk_loop small_processor ''abcdefg.hi'' s acc
      = (case window_end small_processor ''abcdefg.hi'' s of
           Inl e \<Rightarrow> Some (Inl e)
         | Inr e \<Rightarrow> chunk_loop small_processor ''abcdefg.hi'' (e - 2)
             (if strip (py_slice ''abcdefg.hi'' s e) \<noteq> []
              then acc @ [strip (py_slice ''abcdefg.hi'' s e)] else acc))"
    if "s < 10" for s acc
    using that
    by (subst chunk_loop.simps)
       (simp add: Let_def next_start_def small_processor_def char_encoding_def split: sum.splits)
  have stop: "chunk_loop small_processor ''abcdefg.hi'' 10 acc = Some (Inr acc)" for acc
    by (subst chunk_loop.simps) simp
  have ends: "window_end small_processor ''abcdefg.hi'' 0 = Inr 4"
    "window_end small_processor ''abcdefg.hi'' 2 = Inr 6"
    "window_end small_processor ''abcdefg.hi'' 4 = Inr 8"
    "window_end small_processor ''abcdefg.hi'' 6 = Inr 10"
    "window_end small_processor ''abcdefg.hi'' 8 = Inr 12"
    by (simp_all add: window_end_def Let_def py_slice_def slice_bound_def
         small_processor_def char_encoding_def snap_text_def)
  have "chunk_loop small_processor ''abcdefg.hi'' 0 []
        = Some (Inr [''abcd'', ''cdef'', ''efg.'', ''g.hi'', ''hi''])"
    by (simp add: step ends stop py_slice_def slice_bound_def strip_def isspace_def)
  then show ?thesis
    by (simp add: split_text_into_chunks_def small_processor_def char_encoding_def)
qed

text \<open>The same text, uploaded as a txt file, never gets its documents.\<close>

lemma stuck_upload:
  "process_uploaded_file default_processor counting_libraries 0
     \<lparr>name = ''long.txt'', file_bytes = stuck_text\<rparr> = None"
proof -
  have "strip stuck_text \<noteq> []"
    by (rule strip_nonblank [of "CHR ''.''"]) (simp_all add: isspace_def stuck_text_def)
  moreover have "split_text_into_chunks default_processor stuck_text = None"
    by (rule stuck_split)
  moreover have "get_file_type ''long.txt'' = Inr ''txt''"
    by (simp add: get_file_type_def file_extension_def lower_def lower_char_def)
  ultimately show ?thesis
    by (simp add: process_uploaded_file_def counting_libraries_def)
qed

section \<open>Whatever is returned is trimmed\<close>

text \<open>
  For all parameters, also outside \<open>0 \<le> O < S\<close>: a list that either loop returns
  holds only non-empty, trimmed chunks.
\<close>

lemma simple_loop_chunks_trimmed:
  assumes "simple_loop t cs co s acc = Some r"
    and "\<forall>c \<in> set acc. c \<noteq> [] \<and> strip c = c"
  shows "\<forall>c \<in> set r. c \<noteq> [] \<and> strip c = c"
  using assms
proof (induction t cs co s acc r rule: simple_loop.raw_induct [rotated 1, consumes 1])
  case (1 f t cs co s acc r)
  show ?case
  proof (cases "s < int (length t)")
    case True
    with "1.hyps" obtain s' acc' where r: "f t cs co s' acc' = Some r"
      and acc': "acc' = (if strip (py_slice t s (s + cs)) \<noteq> []
                        then acc @ [strip (py_slice t s (s + cs))] else acc)"
      by (simp add: Let_def)
    have "\<forall>c \<in> set acc'. c \<noteq> [] \<and> strip c = c"
      using "1.prems" by (simp add: acc' strip_strip)
    from "1.IH" [OF r this] show ?thesis .
  next
    case False
    with "1.hyps" "1.prems" show ?thesis by simp
  qed
qed

lemma chunk_loop_chunks_trimmed:
  assumes "chunk_loop dp tokens start acc = Some (Inr chunks)"
    and "\<forall>c \<in> set acc. c \<noteq> [] \<and> strip c = c"
  shows "\<forall>c \<in> set chunks. c \<noteq> [] \<and> strip c = c"
proof -
  have "\<forall>chunks. r = Inr chunks \<longrightarrow> (\<forall>c \<in> set acc. c \<noteq> [] \<and> strip c = c)
          \<longrightarrow> (\<forall>c \<in> set chunks. c \<noteq> [] \<and> strip c = c)"
    if "chunk_loop dp tokens start acc = Some r" for r
    using that
  proof (induction dp tokens start acc r rule: chunk_loop.raw_induct [rotated 1, consumes 1])
    case (1 f dp tokens start acc r)
    show ?case
    proof (cases "start < int (length tokens)")
      case False
      with "1.hyps" show ?thesis by auto
    next
      case True
      show ?thesis
      proof (cases "window_end dp tokens start")
        case (Inl e)
        with True "1.hyps" show ?thesis by auto
      next
        case (Inr e)
        define ct where "ct = decode (encoding dp) (py_slice tokens start e)"
        from True Inr "1.hyps" have r: "f dp tokens (next_start dp e)
              (if strip ct \<noteq> [] then acc @ [strip ct] else acc) = Some r"
          unfolding ct_def by (simp add: Let_def split del: if_split)
        have keep: "\<forall>c \<in> set (if strip ct \<noteq> [] then acc @ [strip ct] else acc).
                      c \<noteq> [] \<and> strip c = c"
          if "\<forall>c \<in> set acc. c \<noteq> [] \<and> strip c = c"
          using that by (simp add: strip_strip)
        from "1.IH" [OF r] keep show ?thesis by blast
      qed
    qed
  qed
  with assms show ?thesis by blast
qed

lemma returned_chunks_trimmed:
  assumes "split_text_into_chunks dp text = Some chunks"
  shows "\<forall>c \<in> set chunks. c \<noteq> [] \<and> strip c = c"
proof -
  have fallback: "\<forall>c \<in> set chunks. c \<noteq> [] \<and> strip c = c"
    if "simple_text_split dp text = Some chunks"
    using that simple_loop_chunks_trimmed [of _ _ _ 0 "[]" chunks]
    by (simp add: simple_text_split_def Let_def)
  show ?thesis
  proof (cases "encode (encoding dp) text")
    case (Inl e)
    with assms fallback show ?thesis by (simp add: split_text_into_chunks_def)
  next
    case (Inr tokens)
    show ?thesis
    proof (cases "chunk_loop dp tokens 0 []")
      case None
      with assms Inr show ?thesis by (simp add: split_text_into_chunks_def)
    next
      case (Some r)
      show ?thesis
      proof (cases r)
        case (Inl e)
        with assms Inr Some fallback show ?thesis by (simp add: split_text_into_chunks_def)
      next
        case r: (Inr cs)
        with assms Inr Some have "cs = chunks" by (simp add: split_text_into_chunks_def)
        with chunk_loop_chunks_trimmed [of dp tokens 0 "[]" cs] Some r show ?thesis by simp
      qed
    qed
  qed
qed

end
